theory Spec2Isabelle
  imports Main "HOL-Library.Word" "HOL-Library.AList" "HOL-Library.Char_ord"
    "HOL-Library.List_Lexorder"
begin

section \<open>Go strings\<close>

text \<open>
  A Go \<^verbatim>\<open>string\<close> and a \<^verbatim>\<open>[]byte\<close> are byte sequences; both are \<^typ>\<open>string\<close> here
  (a list of 8-bit characters). The functions of package \<^verbatim>\<open>strings\<close> that
  \<^verbatim>\<open>main.go\<close> calls are written out below, under their Go names. An index is an
  \<^typ>\<open>int\<close>, and \<open>-1\<close> says "not found", as in Go.
\<close>

definition HasPrefix :: "string \<Rightarrow> string \<Rightarrow> bool" where
  "HasPrefix s p \<longleftrightarrow> length p \<le> length s \<and> take (length p) s = p"

definition HasSuffix :: "string \<Rightarrow> string \<Rightarrow> bool" where
  "HasSuffix s x \<longleftrightarrow> length x \<le> length s \<and> drop (length s - length x) s = x"

fun Index :: "string \<Rightarrow> string \<Rightarrow> int" where
  "Index [] sub = (if sub = [] then 0 else -1)"
| "Index (c # s) sub =
     (if HasPrefix (c # s) sub then 0
      else (let i = Index s sub in if i < 0 then -1 else i + 1))"

definition Contains :: "string \<Rightarrow> string \<Rightarrow> bool" where
  "Contains s sub \<longleftrightarrow> Index s sub \<ge> 0"

text \<open>
  \<^verbatim>\<open>strings.ToLower\<close> on ASCII strings: the letters \<open>A\<close> to \<open>Z\<close> move to \<open>a\<close> to \<open>z\<close>
  and every other byte stays. This is what Go computes for a string whose bytes are
  all below 0x80 (\<open>ascii\<close>). On other strings Go decodes UTF-8 and lowers each
  rune, which is not modelled: every statement below about the label of a key is
  made for \<open>ascii\<close> keys only.
\<close>

definition ascii :: "string \<Rightarrow> bool" where
  "ascii s = list_all (\<lambda>c. (of_char c :: nat) < 128) s"

definition lower_byte :: "char \<Rightarrow> char" where
  "lower_byte c =
     (let n = (of_char c :: nat) in if 65 \<le> n \<and> n \<le> 90 then char_of (n + 32) else c)"

definition ToLower :: "string \<Rightarrow> string" where
  "ToLower s = map lower_byte s"

text \<open>
  The slice expression \<^verbatim>\<open>s[lo:hi]\<close>. Go panics unless \<open>0 \<le> lo \<le> hi \<le> len(s)\<close>, so
  the result is optional; \<^verbatim>\<open>s[lo:]\<close> is \<open>slice_from\<close>.
\<close>

definition slice :: "string \<Rightarrow> int \<Rightarrow> int \<Rightarrow> string option" where
  "slice s lo hi =
     (if 0 \<le> lo \<and> lo \<le> hi \<and> hi \<le> int (length s)
      then Some (take (nat (hi - lo)) (drop (nat lo) s)) else None)"

definition slice_from :: "string \<Rightarrow> int \<Rightarrow> string option" where
  "slice_from s lo = slice s lo (int (length s))"

text \<open>\<^verbatim>\<open>strings.Replace(s, old, new, 1)\<close>: the first occurrence only; an empty \<open>old\<close>
  matches at the start.\<close>

definition Replace1 :: "string \<Rightarrow> string \<Rightarrow> string \<Rightarrow> string" where
  "Replace1 s old new =
     (let i = Index s old in
      if i < 0 then s else take (nat i) s @ new @ drop (nat i + length old) s)"

section \<open>The table label and the password redactor\<close>

text \<open>
  \<^verbatim>\<open>extractTable\<close> (main.go, lines 299 to 325). A slice that would panic is \<open>None\<close>;
  \<open>extractTable_total\<close> below shows that none does, the slices being taken from the
  lower-cased key in which the indices were found.
\<close>

definition extractTable :: "string \<Rightarrow> string option" where
  "extractTable key =
     (let table = Some ''unknown'';
          lowkey = ToLower key;
          table =
            (if Contains lowkey ''insert%20into%20'' then
               (let from = Index lowkey ''insert%20into%20'' in
                if from \<ge> 0 then
                  (let from = from + int (length ''insert%20into%20'') in
                   case slice_from lowkey from of
                     None \<Rightarrow> None
                   | Some tail \<Rightarrow>
                       (let to = Index tail ''%20'' in
                        if to > 0 then slice lowkey from (to + from) else table))
                else table)
             else table)
      in if table = Some ''unknown'' then
           (if Contains lowkey ''insert+into+'' then
              (let from = Index lowkey ''insert+into+'' in
               if from \<ge> 0 then
                 (let from = from + int (length ''insert+into+'') in
                  case slice_from lowkey from of
                    None \<Rightarrow> None
                  | Some tail \<Rightarrow>
                      (let to = Index tail ''+'' in
                       if to > 0 then slice lowkey from (to + from) else table))
               else table)
            else table)
         else table)"

text \<open>\<^verbatim>\<open>hidePassword\<close> (main.go, lines 328 to 339).\<close>

definition hidePassword :: "string \<Rightarrow> string option" where
  "hidePassword str =
     (let replace = ''password='';
          pos = Index str replace
      in if pos < 0 then Some str
         else case slice_from str pos of
           None \<Rightarrow> None
         | Some tail \<Rightarrow>
             (let pos2 = Index tail ''&'' in
              if pos2 < 0 then
                (case slice str 0 (pos + int (length replace)) of
                   None \<Rightarrow> None
                 | Some head \<Rightarrow> Some (head @ ''*''))
              else
                (case slice str 0 (pos + int (length replace)) of
                   None \<Rightarrow> None
                 | Some head \<Rightarrow>
                     (case slice_from str (pos + pos2) of
                        None \<Rightarrow> None
                      | Some rest \<Rightarrow> Some (head @ ''*'' @ rest)))))"

text \<open>
  An auxiliary reading of one block of \<^verbatim>\<open>extractTable\<close>, used in the proofs only: the
  name after the first occurrence of \<open>pat\<close>, up to the next \<open>sep\<close>, when that
  separator exists and the name is not empty.
\<close>

definition clause :: "string \<Rightarrow> string \<Rightarrow> string \<Rightarrow> string option" where
  "clause s pat sep =
     (if 0 \<le> Index s pat then
        (let tail = drop (nat (Index s pat) + length pat) s; to = Index tail sep
         in if to > 0 then Some (take (nat to) tail) else None)
      else None)"

section \<open>Flags, requests and the process state\<close>

text \<open>
  The flags that the modelled code reads (\<^verbatim>\<open>-fwd\<close>, \<^verbatim>\<open>-repl\<close>, \<^verbatim>\<open>-delim\<close>), and what the
  program obtains from outside itself:
  \<^item> \<open>query_param\<close> is \<^verbatim>\<open>r.URL.Query().Get("query")\<close> as a function of the raw query
    string, the decoding being that of package \<^verbatim>\<open>net/url\<close>;
  \<^item> \<open>NewRequest\<close> is the error of \<^verbatim>\<open>http.NewRequest("POST", uri, ...)\<close>, if any, which
    depends on the target URI only;
  \<^item> \<open>Do\<close> is the outcome of \<^verbatim>\<open>http.DefaultClient.Do\<close> in the \<open>n\<close>-th call of \<^verbatim>\<open>send\<close>
    (counting from 0): a transport error, or the status code of the response;
  \<^item> \<open>UnixNano\<close> is \<^verbatim>\<open>time.Now().UnixNano()\<close> in the \<open>n\<close>-th call of \<^verbatim>\<open>send\<close>.
\<close>

record env =
  fwd :: string
  repl :: string
  delim :: string
  query_param :: "string \<Rightarrow> string"
  NewRequest :: "string \<Rightarrow> string option"
  Do :: "nat \<Rightarrow> string + nat"
  UnixNano :: "nat \<Rightarrow> nat"

text \<open>
  What \<^verbatim>\<open>dorequest\<close> reads of an \<^verbatim>\<open>*http.Request\<close>: the fields \<^verbatim>\<open>Path\<close>, \<^verbatim>\<open>RawPath\<close> and
  \<^verbatim>\<open>RawQuery\<close> of \<^verbatim>\<open>r.URL\<close> as package \<^verbatim>\<open>net/url\<close> has set them (\<^verbatim>\<open>RawPath\<close> is its
  "encoded path hint"), the method, and the result of \<^verbatim>\<open>ioutil.ReadAll(r.Body)\<close>, where
  \<open>Inl\<close> carries the text of a read error.
\<close>

record request =
  Path :: string
  RawPath :: string
  RawQuery :: string
  Method :: string
  Body :: "string + string"

text \<open>
  How the server fills these fields from the target of the request line
  (\<^verbatim>\<open>url.ParseRequestURI\<close>), for a target in origin form, that is, one that begins with
  \<^verbatim>\<open>/\<close>. The target is refused when it holds a control byte; it is cut at the first
  \<^verbatim>\<open>?\<close> into the path and the raw query; \<^verbatim>\<open>setPath\<close> decodes the percent escapes of the
  path into \<^verbatim>\<open>Path\<close> and keeps the path as sent in \<^verbatim>\<open>RawPath\<close> only when it differs from
  the default encoding of \<^verbatim>\<open>Path\<close>, in which only \<^verbatim>\<open>?\<close> and the bytes that are neither
  letters, digits nor one of \<^verbatim>\<open>-_.~$&+,/:;=@\<close> are escaped. Targets in another form are not
  modelled and give \<open>None\<close>, as a refused target does.
\<close>

definition ishex :: "char \<Rightarrow> bool" where
  "ishex c =
     (let n = (of_char c :: nat)
      in (48 \<le> n \<and> n \<le> 57) \<or> (97 \<le> n \<and> n \<le> 102) \<or> (65 \<le> n \<and> n \<le> 70))"

definition unhex :: "char \<Rightarrow> nat" where
  "unhex c =
     (let n = (of_char c :: nat)
      in if 48 \<le> n \<and> n \<le> 57 then n - 48
         else if 97 \<le> n \<and> n \<le> 102 then n - 97 + 10
         else if 65 \<le> n \<and> n \<le> 70 then n - 65 + 10
         else 0)"

fun unescape :: "string \<Rightarrow> string option" where
  "unescape [] = Some []"
| "unescape (c # s) =
     (if c = CHR ''%'' then
        (case s of
           a # b # t \<Rightarrow>
             if ishex a \<and> ishex b
             then map_option ((#) (char_of (unhex a * 16 + unhex b))) (unescape t)
             else None
         | _ \<Rightarrow> None)
      else map_option ((#) c) (unescape s))"

definition shouldEscape :: "char \<Rightarrow> bool" where
  "shouldEscape c =
     (let n = (of_char c :: nat)
      in if (97 \<le> n \<and> n \<le> 122) \<or> (65 \<le> n \<and> n \<le> 90) \<or> (48 \<le> n \<and> n \<le> 57) then False
         else if c \<in> set ''-_.~'' then False
         else if c \<in> set ''$&+,/:;=?@'' then c = CHR ''?''
         else True)"

definition escape :: "string \<Rightarrow> string" where
  "escape s =
     concat (map (\<lambda>c. if shouldEscape c
                        then [CHR ''%'', ''0123456789ABCDEF'' ! (of_char c div 16),
                              ''0123456789ABCDEF'' ! (of_char c mod 16)]
                        else [c]) s)"

definition setPath :: "string \<Rightarrow> (string \<times> string) option" where
  "setPath p =
     (case unescape p of
        None \<Rightarrow> None
      | Some path \<Rightarrow> Some (path, if p = escape path then [] else p))"

definition ParseRequestURI :: "string \<Rightarrow> (string \<times> string \<times> string) option" where
  "ParseRequestURI rawURL =
     (if list_ex (\<lambda>c. (of_char c :: nat) < 32 \<or> (of_char c :: nat) = 127) rawURL then None
      else if \<not> HasPrefix rawURL ''/'' then None
      else (let rest = takeWhile (\<lambda>c. c \<noteq> CHR ''?'') rawURL;
                query = drop (length rest + 1) rawURL
            in case setPath rest of
                 None \<Rightarrow> None
               | Some (path, raw) \<Rightarrow> Some (path, raw, query)))"

text \<open>The request that the handler is given for a method, a target and a body.\<close>

definition received :: "string \<Rightarrow> string \<Rightarrow> string + string \<Rightarrow> request option" where
  "received method rawURL body =
     (case ParseRequestURI rawURL of
        None \<Rightarrow> None
      | Some (path, raw, query) \<Rightarrow>
          Some \<lparr>Path = path, RawPath = raw, RawQuery = query, Method = method, Body = body\<rparr>)"

text \<open>
  A spill file of directory \<^verbatim>\<open>errors\<close>: \<open>Inl\<close> when \<^verbatim>\<open>pudge.Open\<close> or \<^verbatim>\<open>db.Keys\<close> fails on
  it, otherwise its records in the order \<^verbatim>\<open>db.Keys\<close> lists them, each with the result of
  \<^verbatim>\<open>db.Get\<close> (\<open>Inl\<close> for a read error). The directory itself may be missing, or may
  make \<^verbatim>\<open>filepath.Walk\<close> fail with some other error.
\<close>

type_synonym spillfile = "string + (string \<times> (string + string)) list"

datatype errors_dir = NoDir | Unreadable string | Dir "(string \<times> spillfile) list"

text \<open>
  The globals: the map \<^verbatim>\<open>store.Req\<close>, the counters \<^verbatim>\<open>in\<close> and \<^verbatim>\<open>out\<close> (\<^verbatim>\<open>uint32\<close>), the
  string \<^verbatim>\<open>status\<close>, and the directory \<^verbatim>\<open>errors\<close> on disk. \<open>sent\<close> is a history of the
  calls of \<^verbatim>\<open>send\<close>: key, body, the flag \<^verbatim>\<open>silent\<close> and the error returned. The metrics
  and log sinks receive data and give none back; they are left out.
\<close>

record state =
  Req :: "string \<rightharpoonup> string"
  in_requests :: "32 word"
  out_requests :: "32 word"
  status :: string
  errors :: errors_dir
  sent :: "(string \<times> string \<times> bool \<times> string option) list"

definition CRLF :: string where
  "CRLF = [CHR 0x0D, CHR 0x0A]"

text \<open>Reading a Go map at a key it does not hold gives the zero value, an empty slice.\<close>

definition lookup :: "(string \<rightharpoonup> string) \<Rightarrow> string \<Rightarrow> string" where
  "lookup m k = (case m k of None \<Rightarrow> [] | Some v \<Rightarrow> v)"

section \<open>The ingest handler\<close>

text \<open>The delimiter of one request (\<^verbatim>\<open>dorequest\<close>, lines 172 to 176).\<close>

definition delimiter :: "env \<Rightarrow> request \<Rightarrow> string" where
  "delimiter env r =
     (let delimiter = delim env;
          q = query_param env (RawQuery r)
      in if HasSuffix q ''FORMAT TSV'' \<or> HasSuffix q ''FORMAT CSV'' then [] else delimiter)"

text \<open>
  \<^verbatim>\<open>dorequest\<close> (lines 148 to 204). The response is its status code; a handler that
  writes no header answers 200. The section between \<^verbatim>\<open>store.Lock()\<close> and
  \<^verbatim>\<open>store.Unlock()\<close> is one step.
\<close>

definition dorequest :: "env \<Rightarrow> request \<Rightarrow> state \<Rightarrow> nat \<times> state" where
  "dorequest env r st =
     (if Path r \<noteq> ''/'' then (404, st)
      else if Method r = ''GET'' then (200, st)
      else if Method r = ''POST'' then
        (case Body r of
           Inl err \<Rightarrow> (500, st)
         | Inr body \<Rightarrow>
             (let uri = RawPath r @ ''?'' @ RawQuery r in
              if length body > 0 then
                (let m = Req st;
                     m = (if m uri = None then m(uri \<mapsto> [])
                          else m(uri \<mapsto> lookup m uri @ delimiter env r));
                     m = m(uri \<mapsto> lookup m uri @ body);
                     st = st\<lparr>Req := m\<rparr>;
                     st = st\<lparr>in_requests := in_requests st + 1\<rparr>
                 in (200, st))
              else (405, st)))
      else (405, st))"

section \<open>The forwarder and the spill store\<close>

text \<open>\<^verbatim>\<open>fmt.Sprintf("%d", n)\<close> for \<open>n \<ge> 0\<close>.\<close>

fun decimal :: "nat \<Rightarrow> string" where
  "decimal n =
     (if n < 10 then [''0123456789'' ! n]
      else decimal (n div 10) @ [''0123456789'' ! (n mod 10)])"

declare decimal.simps [simp del]

text \<open>
  \<^verbatim>\<open>pudge.Set("errors/" + name, key, val)\<close> followed by \<^verbatim>\<open>pudge.Close\<close>: the file is created
  when it is not there, with the directory; in an existing file the key is set. The
  source drops the error of \<^verbatim>\<open>pudge.Set\<close>, so a failing write leaves the disk as it is.
  Only the data file is listed here; the sweeper skips the index file that pudge
  writes beside it.
\<close>

definition pudge_Set :: "string \<Rightarrow> string \<Rightarrow> string \<Rightarrow> errors_dir \<Rightarrow> errors_dir" where
  "pudge_Set name key val d =
     (case d of
        NoDir \<Rightarrow> Dir [(name, Inr [(key, Inr val)])]
      | Unreadable e \<Rightarrow> Unreadable e
      | Dir fs \<Rightarrow>
          (case map_of fs name of
             None \<Rightarrow> Dir (fs @ [(name, Inr [(key, Inr val)])])
           | Some (Inl e) \<Rightarrow> Dir fs
           | Some (Inr recs) \<Rightarrow>
               Dir (AList.update name (Inr (AList.update key (Inr val) recs)) fs)))"

text \<open>The URI that \<^verbatim>\<open>send\<close> posts to (lines 348 to 353).\<close>

definition target :: "env \<Rightarrow> string \<Rightarrow> string" where
  "target env key =
     (let uri = key in
      if HasPrefix uri ''/'' then fwd env @ uri else Replace1 uri (repl env) (fwd env))"

text \<open>
  \<^verbatim>\<open>send\<close> (lines 342 to 405). The named result \<^verbatim>\<open>err\<close> is what both bare \<^verbatim>\<open>return\<close>
  statements give back. \<^verbatim>\<open>extractTable\<close> and \<^verbatim>\<open>hidePassword\<close> are called for the metrics
  and the log only, and neither panics (\<open>extractTable_total\<close>, \<open>hidePassword_eq\<close>).
\<close>

definition send :: "env \<Rightarrow> string \<Rightarrow> string \<Rightarrow> bool \<Rightarrow> state \<Rightarrow> string option \<times> state" where
  "send env key val silent st =
     (let n = length (sent st);
          uri = target env key;
          db = decimal (UnixNano env n)
      in case NewRequest env uri of
           Some err \<Rightarrow>
             (let st = (if silent \<and> length val > 0
                        then st\<lparr>errors := pudge_Set db key val (errors st)\<rparr> else st)
              in (Some err, st\<lparr>sent := sent st @ [(key, val, silent, Some err)]\<rparr>))
         | None \<Rightarrow>
             (let err = (case Do env n of
                           Inl e \<Rightarrow> Some e
                         | Inr code \<Rightarrow>
                             if code \<noteq> 200 then Some ''Error: response code not 200''
                             else None)
              in case err of
                   Some e \<Rightarrow>
                     (let st = st\<lparr>status := e @ CRLF\<rparr>;
                          st = (if silent \<and> length val > 0
                                then st\<lparr>errors := pudge_Set db key val (errors st)\<rparr> else st)
                      in (Some e, st\<lparr>sent := sent st @ [(key, val, silent, Some e)]\<rparr>))
                 | None \<Rightarrow>
                     (None, st\<lparr>status := ''OK'' @ CRLF,
                               sent := sent st @ [(key, val, silent, None)]\<rparr>)))"

section \<open>The flusher\<close>

text \<open>
  The body of the loop over the keys in \<^verbatim>\<open>backgroundManager\<close> (lines 282 to 290), for
  one key: read the buffer, send it with \<^verbatim>\<open>silent = true\<close>, drop the result of \<^verbatim>\<open>send\<close>,
  delete the key, count.
\<close>

definition flush_key :: "env \<Rightarrow> string \<Rightarrow> state \<Rightarrow> state" where
  "flush_key env key st =
     (let val = lookup (Req st) key;
          (err, st) = send env key val True st;
          st = st\<lparr>Req := (Req st)(key := None)\<rparr>
      in st\<lparr>out_requests := out_requests st + 1\<rparr>)"

fun flush_keys :: "env \<Rightarrow> string list \<Rightarrow> state \<Rightarrow> state" where
  "flush_keys env [] st = st"
| "flush_keys env (key # keys) st = flush_keys env keys (flush_key env key st)"

section \<open>The recovery sweeper\<close>

text \<open>\<^verbatim>\<open>filePathWalkDir("errors")\<close> (lines 449 to 465): the names that do not end in
  \<^verbatim>\<open>.idx\<close>, or the error of the walk.\<close>

definition filePathWalkDir :: "state \<Rightarrow> string + string list" where
  "filePathWalkDir st =
     (case errors st of
        NoDir \<Rightarrow> Inl ''lstat errors: no such file or directory''
      | Unreadable e \<Rightarrow> Inl e
      | Dir fs \<Rightarrow> Inr (filter (\<lambda>path. \<not> HasSuffix path ''.idx'') (map fst fs)))"

text \<open>\<^verbatim>\<open>pudge.Open\<close> with \<^verbatim>\<open>db.Keys\<close>; a file that is not there is created empty.\<close>

definition pudge_Open :: "string \<Rightarrow> state \<Rightarrow> spillfile" where
  "pudge_Open file st =
     (case errors st of
        Dir fs \<Rightarrow> (case map_of fs file of None \<Rightarrow> Inr [] | Some c \<Rightarrow> c)
      | _ \<Rightarrow> Inr [])"

text \<open>\<^verbatim>\<open>db.DeleteFile()\<close> of pudge removes the data file and its index file, whose name is
  that of the data file followed by \<^verbatim>\<open>.idx\<close>.\<close>

definition DeleteFile :: "string \<Rightarrow> state \<Rightarrow> state" where
  "DeleteFile file st =
     st\<lparr>errors := (case errors st of
                      Dir fs \<Rightarrow> Dir (AList.delete (file @ ''.idx'') (AList.delete file fs))
                    | d \<Rightarrow> d)\<rparr>"

text \<open>The loop over the keys of one file (lines 427 to 441).\<close>

fun send_keys :: "env \<Rightarrow> (string \<times> (string + string)) list \<Rightarrow> state \<Rightarrow> string option \<times> state"
  where
  "send_keys env [] st = (None, st)"
| "send_keys env ((key, got) # keys) st =
     (case got of
        Inl err \<Rightarrow> (Some err, st)
      | Inr val \<Rightarrow>
          (case send env key val False st of
             (Some err, st) \<Rightarrow> (Some err, st)
           | (None, st) \<Rightarrow> send_keys env keys st))"

text \<open>The loop over the files (lines 417 to 445).\<close>

fun checkErr_files :: "env \<Rightarrow> string list \<Rightarrow> state \<Rightarrow> string option \<times> state" where
  "checkErr_files env [] st = (None, st)"
| "checkErr_files env (file # list) st =
     (case pudge_Open file st of
        Inl err \<Rightarrow> (Some err, st)
      | Inr keys \<Rightarrow>
          (case send_keys env keys st of
             (Some err, st) \<Rightarrow> (Some err, st)
           | (None, st) \<Rightarrow> checkErr_files env list (DeleteFile file st)))"

text \<open>\<^verbatim>\<open>checkErr\<close> (lines 407 to 447); \<^verbatim>\<open>sort.StringSlice\<close> orders strings byte by byte.\<close>

definition checkErr :: "env \<Rightarrow> state \<Rightarrow> string option \<times> state" where
  "checkErr env st =
     (case filePathWalkDir st of
        Inl err \<Rightarrow>
          if err \<noteq> ''lstat errors: no such file or directory'' then (Some err, st)
          else (None, st)
      | Inr list \<Rightarrow> checkErr_files env (sort list) st)"

section \<open>Runs of the process\<close>

text \<open>
  The lock of \<^verbatim>\<open>store\<close> makes the handlers and the flusher take turns: a run is a
  sequence of handled requests, of keys flushed, and of sweeps of the spill directory.
\<close>

datatype event = Request request | Flush string | Sweep

fun step :: "env \<Rightarrow> event \<Rightarrow> state \<Rightarrow> state" where
  "step env (Request r) st = snd (dorequest env r st)"
| "step env (Flush key) st = flush_key env key st"
| "step env Sweep st = snd (checkErr env st)"

fun run :: "env \<Rightarrow> event list \<Rightarrow> state \<Rightarrow> state" where
  "run env [] st = st"
| "run env (e # es) st = run env es (step env e st)"

text \<open>The state at start: \<^verbatim>\<open>store.Req\<close> is empty and \<^verbatim>\<open>status\<close> is \<^verbatim>\<open>"OK\r\n"\<close>.\<close>

definition start :: "errors_dir \<Rightarrow> state" where
  "start d = \<lparr>Req = Map.empty, in_requests = 0, out_requests = 0, status = ''OK'' @ CRLF,
              errors = d, sent = []\<rparr>"

text \<open>
  For stating the claims: the body a request carries, and whether a request is a
  \<^verbatim>\<open>POST\<close> to the root with a non-empty body whose fingerprint is \<open>F\<close>.
\<close>

definition body_of :: "request \<Rightarrow> string" where
  "body_of r = (case Body r of Inl err \<Rightarrow> [] | Inr body \<Rightarrow> body)"

text \<open>The bodies of the requests \<open>rs\<close> in order, each but the first after its own
  delimiter.\<close>

fun joined :: "env \<Rightarrow> request list \<Rightarrow> string" where
  "joined env [] = []"
| "joined env (r # rs) = body_of r @ concat (map (\<lambda>r'. delimiter env r' @ body_of r') rs)"

definition appends_to :: "string \<Rightarrow> request \<Rightarrow> bool" where
  "appends_to F r \<longleftrightarrow>
     Path r = ''/'' \<and> Method r = ''POST'' \<and> body_of r \<noteq> [] \<and> RawPath r @ ''?'' @ RawQuery r = F"

fun appends :: "string \<Rightarrow> event list \<Rightarrow> request list" where
  "appends F [] = []"
| "appends F (Request r # es) = (if appends_to F r then r # appends F es else appends F es)"
| "appends F (e # es) = appends F es"

text \<open>
  For stating the claims about the sweeper: the directory entries that go when the
  files \<open>ds\<close> are deleted (each data file and its index file), the records of a spill
  file, whether each of them can be read, and the entries that the history gains when
  each is sent with \<^verbatim>\<open>silent = false\<close> and accepted.
\<close>

definition gone :: "string list \<Rightarrow> string list" where
  "gone ds = concat (map (\<lambda>f. [f, f @ ''.idx'']) ds)"

definition records :: "(string \<times> spillfile) list \<Rightarrow> string \<Rightarrow> (string \<times> (string + string)) list"
  where
  "records fs f = (case map_of fs f of Some (Inr keys) \<Rightarrow> keys | _ \<Rightarrow> [])"

definition readable :: "(string \<times> (string + string)) list \<Rightarrow> bool" where
  "readable keys = list_all (\<lambda>(key, got). case got of Inl err \<Rightarrow> False | Inr val \<Rightarrow> True) keys"

definition forwarded ::
  "(string \<times> (string + string)) list \<Rightarrow> (string \<times> string \<times> bool \<times> string option) list" where
  "forwarded keys =
     map (\<lambda>(key, got). (key, (case got of Inl err \<Rightarrow> [] | Inr val \<Rightarrow> val), False, None)) keys"

text \<open>What the loop over the keys of one file adds to the history: the records sent
  with success, then, when it stops early, the failed call (none for a read error).\<close>

definition keys_outcome ::
  "(string \<times> (string + string)) list \<Rightarrow> string option \<Rightarrow> nat
     \<Rightarrow> (string \<times> string \<times> bool \<times> string option) list \<Rightarrow> bool" where
  "keys_outcome keys res j partial \<longleftrightarrow>
     j \<le> length keys \<and> readable (take j keys)
     \<and> (res = None \<longrightarrow> j = length keys \<and> partial = [])
     \<and> (res \<noteq> None \<longrightarrow> j < length keys
          \<and> (case snd (keys ! j) of
                Inl err \<Rightarrow> partial = [] \<and> res = Some err
              | Inr val \<Rightarrow> partial = [(fst (keys ! j), val, False, res)]))"

text \<open>How a sweep stops in a file: at once when the file cannot be opened, otherwise
  inside the loop over its keys.\<close>

definition file_outcome ::
  "spillfile \<Rightarrow> string option \<Rightarrow> nat \<Rightarrow> (string \<times> string \<times> bool \<times> string option) list \<Rightarrow> bool"
  where
  "file_outcome c res j partial \<longleftrightarrow>
     (case c of
        Inl err \<Rightarrow> res = Some err \<and> j = 0 \<and> partial = []
      | Inr keys \<Rightarrow> res \<noteq> None \<and> keys_outcome keys res j partial)"

definition opened :: "(string \<times> spillfile) list \<Rightarrow> string \<Rightarrow> spillfile" where
  "opened fs f = (case map_of fs f of None \<Rightarrow> Inr [] | Some c \<Rightarrow> c)"

section \<open>Sample inputs\<close>

text \<open>
  A decoder that agrees with \<^verbatim>\<open>net/url\<close> on raw queries of the form \<^verbatim>\<open>query=...\<close> with
  no percent escape and no second parameter, an upstream that accepts every batch, and
  two requests of the same fingerprint.
\<close>

definition plain_query :: "string \<Rightarrow> string" where
  "plain_query q =
     (if HasPrefix q ''query=''
      then map (\<lambda>c. if c = CHR ''+'' then CHR '' '' else c) (drop 6 q) else [])"

definition env0 :: env where
  "env0 = \<lparr>fwd = ''http://localhost:8123'', repl = [], delim = '','',
            query_param = plain_query, NewRequest = (\<lambda>uri. None),
            Do = (\<lambda>n. Inr 200), UnixNano = (\<lambda>n. 1700000000000000000 + n)\<rparr>"

definition post :: "string \<Rightarrow> string \<Rightarrow> request" where
  "post q body = \<lparr>Path = ''/'', RawPath = [], RawQuery = q, Method = ''POST'', Body = Inr body\<rparr>"

text \<open>
  A forward base that \<^verbatim>\<open>net/url\<close> refuses (a space in the host name), so that
  \<^verbatim>\<open>http.NewRequest\<close> fails on every target built from it.
\<close>

definition env_bad :: env where
  "env_bad = env0\<lparr>fwd := ''http://local host:8123'',
                   NewRequest := (\<lambda>uri. if CHR '' '' \<in> set uri
                                         then Some ''invalid character in host name''
                                         else None)\<rparr>"

text \<open>
  An upstream that answers 500 to the second call of \<^verbatim>\<open>send\<close> and 200 to the others,
  and a spill directory of three batches and two index files.
\<close>

definition env_down :: env where
  "env_down = env0\<lparr>Do := (\<lambda>n. if n = 1 then Inr 500 else Inr 200)\<rparr>"

definition spill_dir :: "(string \<times> spillfile) list" where
  "spill_dir =
     [(''1700000000000000002'', Inr [(''?query=INSERT+INTO+t'', Inr ''3'')]),
      (''1700000000000000001'', Inr [(''?query=INSERT+INTO+t'', Inr ''1,2'')]),
      (''1700000000000000001.idx'', Inr []),
      (''1700000000000000002.idx'', Inr []),
      (''1700000000000000003'', Inr [(''?query=INSERT+INTO+u'', Inr ''4'')])]"

definition spilled :: state where
  "spilled = start (Dir spill_dir)"

section \<open>Facts about the string functions\<close>

lemma HasPrefix_Nil [simp]: "HasPrefix s []"
  by (simp add: HasPrefix_def)

lemma HasPrefix_append [simp]: "HasPrefix (p @ s) p"
  by (simp add: HasPrefix_def)

lemma HasPrefix_iff: "HasPrefix s p \<longleftrightarrow> (\<exists>r. s = p @ r)"
  unfolding HasPrefix_def
  by (metis append_eq_conv_conj append_take_drop_id length_append le_add1)

lemma Index_ge: "- 1 \<le> Index s sub"
  by (induction s) (auto simp: Let_def)

lemma Index_neg_iff: "Index s sub < 0 \<longleftrightarrow> Index s sub = - 1"
  using Index_ge [of s sub] by auto

lemma Index_le_length: "Index s sub \<le> int (length s)"
  by (induction s) (auto simp: Let_def)

lemma Index_bound: "0 \<le> Index s sub \<Longrightarrow> nat (Index s sub) + length sub \<le> length s"
proof (induction s)
  case Nil
  then show ?case by (auto split: if_splits)
next
  case (Cons c s)
  show ?case
  proof (cases "HasPrefix (c # s) sub")
    case True
    then show ?thesis by (simp add: HasPrefix_def)
  next
    case False
    with Cons.prems have "0 \<le> Index s sub" and "Index (c # s) sub = Index s sub + 1"
      by (auto simp: Let_def split: if_splits)
    with Cons.IH show ?thesis by (simp add: nat_add_distrib)
  qed
qed

lemma Index_HasPrefix: "0 \<le> Index s sub \<Longrightarrow> HasPrefix (drop (nat (Index s sub)) s) sub"
proof (induction s)
  case Nil
  then show ?case by (auto split: if_splits)
next
  case (Cons c s)
  show ?case
  proof (cases "HasPrefix (c # s) sub")
    case True
    then show ?thesis by simp
  next
    case False
    with Cons.prems have "0 \<le> Index s sub" and "Index (c # s) sub = Index s sub + 1"
      by (auto simp: Let_def split: if_splits)
    with Cons.IH show ?thesis by (simp add: nat_add_distrib)
  qed
qed

lemma Index_first: "int m < Index s sub \<Longrightarrow> \<not> HasPrefix (drop m s) sub"
proof (induction s arbitrary: m)
  case Nil
  then show ?case by (auto split: if_splits)
next
  case (Cons c s)
  show ?case
  proof (cases m)
    case 0
    with Cons.prems show ?thesis by (auto simp: Let_def split: if_splits)
  next
    case (Suc k)
    with Cons.prems have "int k < Index s sub"
      by (auto simp: Let_def split: if_splits)
    with Cons.IH Suc show ?thesis by simp
  qed
qed

lemma Index_none: "Index s sub < 0 \<Longrightarrow> \<not> HasPrefix (drop m s) sub"
proof (induction s arbitrary: m)
  case Nil
  then show ?case by (auto simp: HasPrefix_def split: if_splits)
next
  case (Cons c s)
  from Cons.prems have np: "\<not> HasPrefix (c # s) sub" and neg: "Index s sub < 0"
    by (auto simp: Let_def split: if_splits)
  show ?case
  proof (cases m)
    case 0
    with np show ?thesis by simp
  next
    case (Suc k)
    with Cons.IH [OF neg] show ?thesis by simp
  qed
qed

lemma Index_eqI:
  "HasPrefix (drop n s) sub \<Longrightarrow> n \<le> length s \<Longrightarrow> (\<forall>m<n. \<not> HasPrefix (drop m s) sub)
     \<Longrightarrow> Index s sub = int n"
proof -
  assume h: "HasPrefix (drop n s) sub" and n: "n \<le> length s"
    and f: "\<forall>m<n. \<not> HasPrefix (drop m s) sub"
  from h have "\<not> Index s sub < 0" using Index_none [of s sub n] by blast
  then have nn: "0 \<le> Index s sub" by simp
  from Index_HasPrefix [OF nn] f have "\<not> nat (Index s sub) < n" by auto
  moreover from h Index_first [of n s sub] have "\<not> int n < Index s sub" by auto
  ultimately show ?thesis using nn by auto
qed

lemma Index_at:
  "Index s sub = int n \<Longrightarrow> \<exists>rest. s = take n s @ sub @ rest"
proof -
  assume a: "Index s sub = int n"
  then have "HasPrefix (drop n s) sub" using Index_HasPrefix [of s sub] by simp
  then obtain r where "drop n s = sub @ r" by (auto simp: HasPrefix_iff)
  then have "s = take n s @ sub @ r" by (metis append_take_drop_id)
  then show ?thesis by blast
qed

lemma HasPrefix_long: "length sub \<le> length b \<Longrightarrow> HasPrefix (b @ x) sub = HasPrefix b sub"
  by (simp add: HasPrefix_def)

lemma HasPrefix_single: "HasPrefix s [c] \<longleftrightarrow> (\<exists>t. s = c # t)"
  by (cases s) (auto simp: HasPrefix_def)

lemma Index_prefix0: "HasPrefix s sub \<Longrightarrow> Index s sub = 0"
  by (cases s) (auto simp: HasPrefix_def)

lemma Index_stable:
  "Index (a @ sub @ x) sub = int (length a) \<Longrightarrow> Index (a @ sub @ y) sub = int (length a)"
proof (induction a)
  case Nil
  show ?case by (simp add: Index_prefix0)
next
  case (Cons c a)
  from Cons.prems have np: "\<not> HasPrefix ((c # a @ sub) @ x) sub"
    and i: "Index (a @ sub @ x) sub = int (length a)"
    by (auto simp: Let_def split: if_splits)
  from np have "\<not> HasPrefix ((c # a @ sub) @ y) sub"
    by (simp only: HasPrefix_long [of sub "c # a @ sub"] length_append length_Cons le_add2 trans_le_add2)
       (simp add: HasPrefix_long [of sub "c # a @ sub"])
  with Cons.IH [OF i] show ?case by (simp add: Let_def)
qed

lemma Index_single_notin: "c \<notin> set s \<Longrightarrow> Index s [c] = - 1"
  by (induction s) (auto simp: Let_def HasPrefix_single)

lemma Index_single_first: "c \<notin> set a \<Longrightarrow> Index (a @ c # t) [c] = int (length a)"
  by (induction a) (auto simp: Let_def HasPrefix_single)

section \<open>The table label\<close>

lemma slice_from_Some: "0 \<le> i \<Longrightarrow> i \<le> int (length s) \<Longrightarrow> slice_from s i = Some (drop (nat i) s)"
  by (simp add: slice_from_def slice_def)

lemma slice_Some:
  "0 \<le> lo \<Longrightarrow> lo \<le> hi \<Longrightarrow> hi \<le> int (length s) \<Longrightarrow> slice s lo hi = Some (take (nat (hi - lo)) (drop (nat lo) s))"
  by (simp add: slice_def)

lemma block_eq:
  "(if Contains s pat then
      (if Index s pat \<ge> 0 then
         (case slice_from s (Index s pat + int (length pat)) of
            None \<Rightarrow> None
          | Some tail \<Rightarrow>
              (if Index tail sep > 0
               then slice s (Index s pat + int (length pat))
                      (Index tail sep + (Index s pat + int (length pat)))
               else Some d))
       else Some d)
    else Some d) = Some (case clause s pat sep of None \<Rightarrow> d | Some n \<Rightarrow> n)"
proof (cases "0 \<le> Index s pat")
  case False
  then show ?thesis by (simp add: Contains_def clause_def)
next
  case True
  define frm where "frm = Index s pat + int (length pat)"
  define tail where "tail = drop (nat frm) s"
  from Index_bound [OF True] True have b: "0 \<le> frm" "frm \<le> int (length s)"
    by (auto simp: frm_def)
  then have sf: "slice_from s frm = Some tail"
    by (simp add: slice_from_Some tail_def)
  have nf: "nat (Index s pat) + length pat = nat frm"
    using True by (simp add: frm_def nat_add_distrib)
  show ?thesis
  proof (cases "0 < Index tail sep")
    case False
    with True sf show ?thesis
      by (simp add: Contains_def clause_def Let_def frm_def [symmetric] nf tail_def [symmetric])
  next
    case pos: True
    then have "nat (Index tail sep) + length sep \<le> length tail"
      using Index_bound [of tail sep] by simp
    then have "Index tail sep + frm \<le> int (length s)"
      using b pos by (simp add: tail_def)
    with b pos have "slice s frm (Index tail sep + frm) = Some (take (nat (Index tail sep)) tail)"
      by (simp add: slice_Some tail_def)
    with True sf pos show ?thesis
      by (simp add: Contains_def clause_def Let_def frm_def [symmetric] nf tail_def [symmetric])
  qed
qed

lemma extractTable_clause:
  "extractTable key =
     Some (case clause (ToLower key) ''insert%20into%20'' ''%20'' of
             Some n \<Rightarrow>
               if n = ''unknown''
               then (case clause (ToLower key) ''insert+into+'' ''+'' of
                       None \<Rightarrow> ''unknown'' | Some m \<Rightarrow> m)
               else n
           | None \<Rightarrow>
               (case clause (ToLower key) ''insert+into+'' ''+'' of
                  None \<Rightarrow> ''unknown'' | Some m \<Rightarrow> m))"
proof -
  define block where "block pat sep d =
    (if Contains (ToLower key) pat then
      (if Index (ToLower key) pat \<ge> 0 then
         (case slice_from (ToLower key) (Index (ToLower key) pat + int (length pat)) of
            None \<Rightarrow> None
          | Some tail \<Rightarrow>
              (if Index tail sep > 0
               then slice (ToLower key) (Index (ToLower key) pat + int (length pat))
                      (Index tail sep + (Index (ToLower key) pat + int (length pat)))
               else d))
       else d)
    else d)" for pat sep and d :: "string option"
  have e: "extractTable key =
      (if block ''insert%20into%20'' ''%20'' (Some ''unknown'') = Some ''unknown''
       then block ''insert+into+'' ''+'' (block ''insert%20into%20'' ''%20'' (Some ''unknown''))
       else block ''insert%20into%20'' ''%20'' (Some ''unknown''))"
    unfolding extractTable_def Let_def block_def by (rule refl)
  have b: "block pat sep (Some d) = Some (case clause (ToLower key) pat sep of None \<Rightarrow> d | Some n \<Rightarrow> n)"
    for pat sep d
    unfolding block_def by (rule block_eq)
  show ?thesis
  proof (cases "block ''insert%20into%20'' ''%20'' (Some ''unknown'') = Some ''unknown''")
    case True
    then have "extractTable key = block ''insert+into+'' ''+'' (Some ''unknown'')"
      by (simp add: e)
    with True show ?thesis
      by (simp only: b) (simp split: option.splits)
  next
    case False
    then have "extractTable key = block ''insert%20into%20'' ''%20'' (Some ''unknown'')"
      by (simp add: e)
    with False show ?thesis
      by (simp only: b) (simp split: option.splits)
  qed
qed

lemma clause_absent: "\<not> Contains s pat \<Longrightarrow> clause s pat sep = None"
  by (simp add: Contains_def clause_def)

lemma clause_unterminated:
  "s = pre @ pat @ tail \<Longrightarrow> Index s pat = int (length pre) \<Longrightarrow>
   \<not> Contains tail sep \<or> HasPrefix tail sep \<Longrightarrow> sep \<noteq> [] \<Longrightarrow> clause s pat sep = None"
proof -
  assume s: "s = pre @ pat @ tail" and i: "Index s pat = int (length pre)"
    and u: "\<not> Contains tail sep \<or> HasPrefix tail sep" and "sep \<noteq> []"
  have "drop (length pre + length pat) s = tail" by (simp add: s)
  then have d: "drop (nat (Index s pat) + length pat) s = tail" by (simp add: i)
  from u have "Index tail sep \<le> 0"
  proof
    assume "\<not> Contains tail sep" then show ?thesis by (simp add: Contains_def)
  next
    assume "HasPrefix tail sep" then show ?thesis by (cases tail) (auto simp: Let_def)
  qed
  then show ?thesis by (simp add: clause_def d Let_def)
qed

lemma clause_terminated:
  "s = pre @ pat @ name @ sep @ rest \<Longrightarrow> Index s pat = int (length pre) \<Longrightarrow>
   Index (name @ sep @ rest) sep = int (length name) \<Longrightarrow> name \<noteq> [] \<Longrightarrow>
   clause s pat sep = Some name"
proof -
  assume s: "s = pre @ pat @ name @ sep @ rest" and i: "Index s pat = int (length pre)"
    and t: "Index (name @ sep @ rest) sep = int (length name)" and n: "name \<noteq> []"
  have "drop (length pre + length pat) s = name @ sep @ rest" by (simp add: s)
  then have d: "drop (nat (Index s pat) + length pat) s = name @ sep @ rest" by (simp add: i)
  have "0 \<le> Index s pat" by (simp add: i)
  then show ?thesis using n unfolding clause_def d Let_def t by simp
qed

lemma ToLower_append: "ToLower (a @ b) = ToLower a @ ToLower b"
  by (simp add: ToLower_def)

lemma ToLower_sep20: "ToLower ''%20'' = ''%20''"
  by code_simp

lemma ToLower_plus: "ToLower ''+'' = ''+''"
  by code_simp

lemma ToLower_length: "length (ToLower s) = length s"
  by (simp add: ToLower_def)

lemma ToLower_Nil_iff: "ToLower s = [] \<longleftrightarrow> s = []"
  by (simp add: ToLower_def)

lemma extractTable_total: "\<exists>t. extractTable key = Some t"
  by (simp add: extractTable_clause)


section \<open>Claims about the table label\<close>

lemma Index_first_char:
  "sub = c # sub' \<Longrightarrow> c \<notin> set a \<Longrightarrow> Index (a @ sub @ t) sub = int (length a)"
proof (induction a)
  case Nil
  show ?case by (simp add: Index_prefix0)
next
  case (Cons x a)
  then have "\<not> HasPrefix (x # a @ sub @ t) sub"
    by (auto simp: HasPrefix_iff)
  with Cons show ?case by (simp add: Let_def)
qed

lemma unknown_then_sep:
  "Index (''unknown'' @ ''%20'' @ t) ''%20'' = int (length ''unknown'')"
proof -
  have "CHR ''%'' \<notin> set ''unknown''" by simp
  then show ?thesis by (rule Index_first_char [OF refl])
qed

lemma clause_unknown:
  assumes s: "s = pre @ ''insert%20into%20'' @ tail"
    and i: "Index s ''insert%20into%20'' = int (length pre)"
    and u: "\<not> Contains tail ''%20'' \<or> HasPrefix tail ''%20'' \<or> HasPrefix tail ''unknown%20''"
  shows "clause s ''insert%20into%20'' ''%20'' = None
         \<or> clause s ''insert%20into%20'' ''%20'' = Some ''unknown''"
proof (cases "\<not> Contains tail ''%20'' \<or> HasPrefix tail ''%20''")
  case True
  have "''%20'' \<noteq> []" by simp
  from clause_unterminated [OF s i True this] show ?thesis by blast
next
  case False
  with u have "HasPrefix tail ''unknown%20''" by blast
  then obtain r where "tail = ''unknown%20'' @ r" by (auto simp: HasPrefix_iff)
  then have s': "s = pre @ ''insert%20into%20'' @ ''unknown'' @ ''%20'' @ r"
    by (simp add: s)
  have "''unknown'' \<noteq> []" by simp
  from clause_terminated [OF s' i unknown_then_sep this] show ?thesis by blast
qed

text \<open>
  C6, as the specification states it, fails: a URL whose only clause is
  \<^verbatim>\<open>INSERT%20INTO%20t\<close> at the very end, with no \<^verbatim>\<open>%20\<close> after the name, is labelled
  \<^verbatim>\<open>unknown\<close> and not \<^verbatim>\<open>t\<close> (the guard \<^verbatim>\<open>to > 0\<close> of the source).
\<close>

theorem extractTable_label_counterexample:
  "ascii (''/?query='' @ ''INSERT%20INTO%20'' @ ''t'')
   \<and> extractTable (''/?query='' @ ''INSERT%20INTO%20'' @ ''t'') = Some ''unknown''
   \<and> ToLower ''t'' \<noteq> ''unknown''"
  by code_simp

text \<open>
  C6, amended. For a key of ASCII bytes: when the lower-cased key has \<^verbatim>\<open>insert%20into%20\<close> first at the end of
  \<open>pre\<close>, followed by a non-empty name and then \<^verbatim>\<open>%20\<close>, where that \<^verbatim>\<open>%20\<close> is the first
  one after the pattern, the label is the name lower-cased (if the name is literally
  \<^verbatim>\<open>unknown\<close>, provided no \<^verbatim>\<open>insert+into+\<close> occurs). When \<^verbatim>\<open>insert%20into%20\<close> does not
  occur and \<^verbatim>\<open>insert+into+\<close> is followed by a non-empty name and then \<^verbatim>\<open>+\<close>, the label
  is that name lower-cased. When neither pattern occurs the label is \<^verbatim>\<open>unknown\<close>.
\<close>

theorem extractTable_terminated:
  "ascii key \<longrightarrow>
   (key = pre @ kw @ name @ ''%20'' @ rest \<and> ToLower kw = ''insert%20into%20''
      \<and> Index (ToLower key) ''insert%20into%20'' = int (length pre)
      \<and> name \<noteq> [] \<and> Index (ToLower (name @ ''%20'' @ rest)) ''%20'' = int (length name)
      \<and> (ToLower name \<noteq> ''unknown'' \<or> \<not> Contains (ToLower key) ''insert+into+'')
    \<longrightarrow> extractTable key = Some (ToLower name))
   \<and> (key = pre @ kw @ name @ ''+'' @ rest \<and> ToLower kw = ''insert+into+''
      \<and> \<not> Contains (ToLower key) ''insert%20into%20''
      \<and> Index (ToLower key) ''insert+into+'' = int (length pre)
      \<and> name \<noteq> [] \<and> Index (ToLower (name @ ''+'' @ rest)) ''+'' = int (length name)
    \<longrightarrow> extractTable key = Some (ToLower name))
   \<and> (\<not> Contains (ToLower key) ''insert%20into%20'' \<and> \<not> Contains (ToLower key) ''insert+into+''
    \<longrightarrow> extractTable key = Some ''unknown'')"
proof (intro conjI impI)
  assume a: "key = pre @ kw @ name @ ''%20'' @ rest \<and> ToLower kw = ''insert%20into%20''
      \<and> Index (ToLower key) ''insert%20into%20'' = int (length pre)
      \<and> name \<noteq> [] \<and> Index (ToLower (name @ ''%20'' @ rest)) ''%20'' = int (length name)
      \<and> (ToLower name \<noteq> ''unknown'' \<or> \<not> Contains (ToLower key) ''insert+into+'')"
  then have k: "key = pre @ kw @ name @ ''%20'' @ rest" and w: "ToLower kw = ''insert%20into%20''"
    and i0: "Index (ToLower key) ''insert%20into%20'' = int (length pre)"
    and n0: "name \<noteq> []"
    and t0: "Index (ToLower (name @ ''%20'' @ rest)) ''%20'' = int (length name)"
    by blast+
  have s: "ToLower key = ToLower pre @ ''insert%20into%20'' @ ToLower name @ ''%20'' @ ToLower rest"
    by (simp only: k ToLower_append w ToLower_sep20)
  have i: "Index (ToLower key) ''insert%20into%20'' = int (length (ToLower pre))"
    by (simp only: i0 ToLower_length)
  have t: "Index (ToLower name @ ''%20'' @ ToLower rest) ''%20'' = int (length (ToLower name))"
    using t0 by (simp only: ToLower_append ToLower_sep20 ToLower_length)
  from n0 have n: "ToLower name \<noteq> []" by (simp only: ToLower_Nil_iff not_False_eq_True)
  have c: "clause (ToLower key) ''insert%20into%20'' ''%20'' = Some (ToLower name)"
    by (rule clause_terminated [OF s i t n])
  from a have "ToLower name \<noteq> ''unknown'' \<or> \<not> Contains (ToLower key) ''insert+into+''" by blast
  then show "extractTable key = Some (ToLower name)"
  proof
    assume "ToLower name \<noteq> ''unknown''"
    then show ?thesis by (simp add: extractTable_clause c)
  next
    assume "\<not> Contains (ToLower key) ''insert+into+''"
    then show ?thesis by (simp add: extractTable_clause c clause_absent)
  qed
next
  assume a: "key = pre @ kw @ name @ ''+'' @ rest \<and> ToLower kw = ''insert+into+''
      \<and> \<not> Contains (ToLower key) ''insert%20into%20''
      \<and> Index (ToLower key) ''insert+into+'' = int (length pre)
      \<and> name \<noteq> [] \<and> Index (ToLower (name @ ''+'' @ rest)) ''+'' = int (length name)"
  then have k: "key = pre @ kw @ name @ ''+'' @ rest" and w: "ToLower kw = ''insert+into+''"
    and i0: "Index (ToLower key) ''insert+into+'' = int (length pre)"
    and n0: "name \<noteq> []"
    and t0: "Index (ToLower (name @ ''+'' @ rest)) ''+'' = int (length name)"
    by blast+
  have s: "ToLower key = ToLower pre @ ''insert+into+'' @ ToLower name @ ''+'' @ ToLower rest"
    by (simp only: k ToLower_append w ToLower_plus)
  have i: "Index (ToLower key) ''insert+into+'' = int (length (ToLower pre))"
    by (simp only: i0 ToLower_length)
  have t: "Index (ToLower name @ ''+'' @ ToLower rest) ''+'' = int (length (ToLower name))"
    using t0 by (simp only: ToLower_append ToLower_plus ToLower_length)
  from n0 have n: "ToLower name \<noteq> []" by (simp only: ToLower_Nil_iff not_False_eq_True)
  have c: "clause (ToLower key) ''insert+into+'' ''+'' = Some (ToLower name)"
    by (rule clause_terminated [OF s i t n])
  from a have "\<not> Contains (ToLower key) ''insert%20into%20''" by blast
  then have "clause (ToLower key) ''insert%20into%20'' ''%20'' = None"
    by (rule clause_absent)
  then show "extractTable key = Some (ToLower name)"
    by (simp add: extractTable_clause c)
next
  assume "\<not> Contains (ToLower key) ''insert%20into%20'' \<and> \<not> Contains (ToLower key) ''insert+into+''"
  then show "extractTable key = Some ''unknown''"
    by (simp add: extractTable_clause clause_absent)
qed

theorem extractTable_terminated_witness:
  "(ascii ''/?query=INSERT%20INTO%20Tab%20VALUES''
     \<and> ''/?query=INSERT%20INTO%20Tab%20VALUES''
       = ''/?query='' @ ''INSERT%20INTO%20'' @ ''Tab'' @ ''%20'' @ ''VALUES''
     \<and> Index (ToLower ''/?query=INSERT%20INTO%20Tab%20VALUES'') ''insert%20into%20''
         = int (length ''/?query='')
     \<and> extractTable ''/?query=INSERT%20INTO%20Tab%20VALUES'' = Some ''tab'')
   \<and> (ascii ''/?query=Insert+Into+Tab+VALUES''
     \<and> \<not> Contains (ToLower ''/?query=Insert+Into+Tab+VALUES'') ''insert%20into%20''
     \<and> Index (ToLower ''/?query=Insert+Into+Tab+VALUES'') ''insert+into+''
         = int (length ''/?query='')
     \<and> extractTable ''/?query=Insert+Into+Tab+VALUES'' = Some ''tab'')
   \<and> (ascii ''/?query=SELECT%201''
     \<and> \<not> Contains (ToLower ''/?query=SELECT%201'') ''insert%20into%20''
     \<and> \<not> Contains (ToLower ''/?query=SELECT%201'') ''insert+into+''
     \<and> extractTable ''/?query=SELECT%201'' = Some ''unknown'')"
proof -
  have l: "ToLower ''Tab'' = ''tab''" by code_simp
  have n: "''Tab'' \<noteq> []" by simp
  have k1: "ascii ''/?query=INSERT%20INTO%20Tab%20VALUES''" by code_simp
  have k2: "ascii ''/?query=Insert+Into+Tab+VALUES''" by code_simp
  have k3: "ascii ''/?query=SELECT%201''" by code_simp
  have a1: "''/?query=INSERT%20INTO%20Tab%20VALUES''
       = ''/?query='' @ ''INSERT%20INTO%20'' @ ''Tab'' @ ''%20'' @ ''VALUES''" by simp
  have a2: "ToLower ''INSERT%20INTO%20'' = ''insert%20into%20''" by code_simp
  have a3: "Index (ToLower ''/?query=INSERT%20INTO%20Tab%20VALUES'') ''insert%20into%20''
         = int (length ''/?query='')" by code_simp
  have a4: "Index (ToLower (''Tab'' @ ''%20'' @ ''VALUES'')) ''%20'' = int (length ''Tab'')"
    by code_simp
  have a5: "ToLower ''Tab'' \<noteq> ''unknown''" by code_simp
  have A: "extractTable ''/?query=INSERT%20INTO%20Tab%20VALUES'' = Some ''tab''"
    using extractTable_terminated [of "''/?query=INSERT%20INTO%20Tab%20VALUES''" "''/?query=''"
        "''INSERT%20INTO%20''" "''Tab''" "''VALUES''"] k1 a1 a2 a3 a4 a5 n unfolding l
    by blast
  have b1: "''/?query=Insert+Into+Tab+VALUES''
       = ''/?query='' @ ''Insert+Into+'' @ ''Tab'' @ ''+'' @ ''VALUES''" by simp
  have b2: "ToLower ''Insert+Into+'' = ''insert+into+''" by code_simp
  have b3: "\<not> Contains (ToLower ''/?query=Insert+Into+Tab+VALUES'') ''insert%20into%20''"
    by code_simp
  have b4: "Index (ToLower ''/?query=Insert+Into+Tab+VALUES'') ''insert+into+''
         = int (length ''/?query='')" by code_simp
  have b5: "Index (ToLower (''Tab'' @ ''+'' @ ''VALUES'')) ''+'' = int (length ''Tab'')"
    by code_simp
  have B: "extractTable ''/?query=Insert+Into+Tab+VALUES'' = Some ''tab''"
    using extractTable_terminated [of "''/?query=Insert+Into+Tab+VALUES''" "''/?query=''"
        "''Insert+Into+''" "''Tab''" "''VALUES''"] k2 b1 b2 b3 b4 b5 n unfolding l
    by blast
  have c1: "\<not> Contains (ToLower ''/?query=SELECT%201'') ''insert%20into%20''" by code_simp
  have c2: "\<not> Contains (ToLower ''/?query=SELECT%201'') ''insert+into+''" by code_simp
  have C: "extractTable ''/?query=SELECT%201'' = Some ''unknown''"
    using extractTable_terminated [of "''/?query=SELECT%201''"] k3 c1 c2 by blast
  from k1 k2 k3 a1 a3 A b3 b4 B c1 c2 C show ?thesis by blast
qed

text \<open>
  C10, as the specification states it, fails: in the key below \<^verbatim>\<open>insert%20into%20\<close>
  occurs and no \<^verbatim>\<open>%20\<close> follows the name \<^verbatim>\<open>bar\<close>, yet the label is not \<^verbatim>\<open>unknown\<close> but
  \<^verbatim>\<open>foo\<close>, the name that the other pattern yields.
\<close>

theorem extractTable_fallback_counterexample:
  "ascii ''/?a=insert+into+foo+x&b=insert%20into%20bar''
   \<and> ToLower ''/?a=insert+into+foo+x&b=insert%20into%20bar''
       = ''/?a=insert+into+foo+x&b='' @ ''insert%20into%20'' @ ''bar''
   \<and> \<not> Contains ''bar'' ''%20''
   \<and> extractTable ''/?a=insert+into+foo+x&b=insert%20into%20bar'' = Some ''foo''
   \<and> ''foo'' \<noteq> ''unknown''"
proof -
  have a: "ascii ''/?a=insert+into+foo+x&b=insert%20into%20bar''" by code_simp
  have b: "ToLower ''/?a=insert+into+foo+x&b=insert%20into%20bar''
       = ''/?a=insert+into+foo+x&b='' @ ''insert%20into%20'' @ ''bar''" by code_simp
  have c: "\<not> Contains ''bar'' ''%20''" by code_simp
  have d: "extractTable ''/?a=insert+into+foo+x&b=insert%20into%20bar'' = Some ''foo''"
    by code_simp
  have e: "''foo'' \<noteq> ''unknown''" by simp
  from a b c d e show ?thesis by blast
qed

text \<open>
  C10, amended. For a key of ASCII bytes: when each pattern that occurs has, after its
  first occurrence, a name that no separator ends (none later in the key, or one at
  once, so that the name is empty), the label is \<^verbatim>\<open>unknown\<close>. The two patterns are not
  ranked by position: a name found after the first \<^verbatim>\<open>insert%20into%20\<close> (other than the
  word \<^verbatim>\<open>unknown\<close>) is the label wherever \<^verbatim>\<open>insert+into+\<close> may occur, and the name
  after the first \<^verbatim>\<open>insert+into+\<close> is the label only when the first pattern left
  \<^verbatim>\<open>unknown\<close>.
\<close>

theorem extractTable_unterminated:
  "ascii key \<longrightarrow>
   ((\<not> Contains (ToLower key) ''insert%20into%20''
       \<or> (ToLower key = pre @ ''insert%20into%20'' @ tail
          \<and> Index (ToLower key) ''insert%20into%20'' = int (length pre)
          \<and> (\<not> Contains tail ''%20'' \<or> HasPrefix tail ''%20'')))
     \<and> (\<not> Contains (ToLower key) ''insert+into+''
       \<or> (ToLower key = pre' @ ''insert+into+'' @ tail'
          \<and> Index (ToLower key) ''insert+into+'' = int (length pre')
          \<and> (\<not> Contains tail' ''+'' \<or> HasPrefix tail' ''+'')))
    \<longrightarrow> extractTable key = Some ''unknown'')
   \<and> (ToLower key = pre @ ''insert%20into%20'' @ name @ ''%20'' @ rest
      \<and> Index (ToLower key) ''insert%20into%20'' = int (length pre)
      \<and> name \<noteq> [] \<and> Index (name @ ''%20'' @ rest) ''%20'' = int (length name)
      \<and> name \<noteq> ''unknown''
    \<longrightarrow> extractTable key = Some name)
   \<and> ((\<not> Contains (ToLower key) ''insert%20into%20''
       \<or> (ToLower key = pre @ ''insert%20into%20'' @ tail
          \<and> Index (ToLower key) ''insert%20into%20'' = int (length pre)
          \<and> (\<not> Contains tail ''%20'' \<or> HasPrefix tail ''%20''
               \<or> HasPrefix tail ''unknown%20'')))
      \<and> ToLower key = pre' @ ''insert+into+'' @ name @ ''+'' @ rest
      \<and> Index (ToLower key) ''insert+into+'' = int (length pre')
      \<and> name \<noteq> [] \<and> Index (name @ ''+'' @ rest) ''+'' = int (length name)
    \<longrightarrow> extractTable key = Some name)"
proof (intro conjI impI)
  assume a: "(\<not> Contains (ToLower key) ''insert%20into%20''
       \<or> (ToLower key = pre @ ''insert%20into%20'' @ tail
          \<and> Index (ToLower key) ''insert%20into%20'' = int (length pre)
          \<and> (\<not> Contains tail ''%20'' \<or> HasPrefix tail ''%20'')))
     \<and> (\<not> Contains (ToLower key) ''insert+into+''
       \<or> (ToLower key = pre' @ ''insert+into+'' @ tail'
          \<and> Index (ToLower key) ''insert+into+'' = int (length pre')
          \<and> (\<not> Contains tail' ''+'' \<or> HasPrefix tail' ''+'')))"
  have n1: "''%20'' \<noteq> []" and n2: "''+'' \<noteq> []" by simp_all
  from a have c1: "clause (ToLower key) ''insert%20into%20'' ''%20'' = None"
    using clause_absent clause_unterminated [OF _ _ _ n1] by blast
  from a have c2: "clause (ToLower key) ''insert+into+'' ''+'' = None"
    using clause_absent clause_unterminated [OF _ _ _ n2] by blast
  show "extractTable key = Some ''unknown''"
    by (simp add: extractTable_clause c1 c2)
next
  assume a: "ToLower key = pre @ ''insert%20into%20'' @ name @ ''%20'' @ rest
      \<and> Index (ToLower key) ''insert%20into%20'' = int (length pre)
      \<and> name \<noteq> [] \<and> Index (name @ ''%20'' @ rest) ''%20'' = int (length name)
      \<and> name \<noteq> ''unknown''"
  then have "clause (ToLower key) ''insert%20into%20'' ''%20'' = Some name"
    using clause_terminated by blast
  moreover from a have "name \<noteq> ''unknown''" by blast
  ultimately show "extractTable key = Some name"
    by (simp add: extractTable_clause)
next
  assume a: "(\<not> Contains (ToLower key) ''insert%20into%20''
       \<or> (ToLower key = pre @ ''insert%20into%20'' @ tail
          \<and> Index (ToLower key) ''insert%20into%20'' = int (length pre)
          \<and> (\<not> Contains tail ''%20'' \<or> HasPrefix tail ''%20''
               \<or> HasPrefix tail ''unknown%20'')))
      \<and> ToLower key = pre' @ ''insert+into+'' @ name @ ''+'' @ rest
      \<and> Index (ToLower key) ''insert+into+'' = int (length pre')
      \<and> name \<noteq> [] \<and> Index (name @ ''+'' @ rest) ''+'' = int (length name)"
  then have c1: "clause (ToLower key) ''insert%20into%20'' ''%20'' = None
         \<or> clause (ToLower key) ''insert%20into%20'' ''%20'' = Some ''unknown''"
    using clause_absent clause_unknown by blast
  from a have c2: "clause (ToLower key) ''insert+into+'' ''+'' = Some name"
    using clause_terminated by blast
  from c1 show "extractTable key = Some name"
    by (auto simp: extractTable_clause c2)
qed

theorem extractTable_unterminated_witness:
  "(ascii ''/?query=INSERT%20INTO%20t''
     \<and> ToLower ''/?query=INSERT%20INTO%20t'' = ''/?query='' @ ''insert%20into%20'' @ ''t''
     \<and> \<not> Contains ''t'' ''%20''
     \<and> \<not> Contains (ToLower ''/?query=INSERT%20INTO%20t'') ''insert+into+''
     \<and> extractTable ''/?query=INSERT%20INTO%20t'' = Some ''unknown'')
   \<and> (ascii ''/?a=insert+into+foo+x&b=insert%20into%20bar%20y''
     \<and> ToLower ''/?a=insert+into+foo+x&b=insert%20into%20bar%20y''
         = ''/?a=insert+into+foo+x&b='' @ ''insert%20into%20'' @ ''bar'' @ ''%20'' @ ''y''
     \<and> extractTable ''/?a=insert+into+foo+x&b=insert%20into%20bar%20y'' = Some ''bar'')
   \<and> (ascii ''/?a=insert+into+foo+x&b=insert%20into%20bar''
     \<and> ToLower ''/?a=insert+into+foo+x&b=insert%20into%20bar''
         = ''/?a='' @ ''insert+into+'' @ ''foo'' @ ''+'' @ ''x&b=insert%20into%20bar''
     \<and> extractTable ''/?a=insert+into+foo+x&b=insert%20into%20bar'' = Some ''foo'')"
proof -
  have k1: "ascii ''/?query=INSERT%20INTO%20t''" by code_simp
  have k2: "ascii ''/?a=insert+into+foo+x&b=insert%20into%20bar%20y''" by code_simp
  have k3: "ascii ''/?a=insert+into+foo+x&b=insert%20into%20bar''" by code_simp
  have a1: "ToLower ''/?query=INSERT%20INTO%20t'' = ''/?query='' @ ''insert%20into%20'' @ ''t''"
    by code_simp
  have a2: "Index (ToLower ''/?query=INSERT%20INTO%20t'') ''insert%20into%20''
              = int (length ''/?query='')" by code_simp
  have a3: "\<not> Contains ''t'' ''%20''" by code_simp
  have a4: "\<not> Contains (ToLower ''/?query=INSERT%20INTO%20t'') ''insert+into+''" by code_simp
  have A: "extractTable ''/?query=INSERT%20INTO%20t'' = Some ''unknown''"
    using extractTable_unterminated [of "''/?query=INSERT%20INTO%20t''" "''/?query=''" "''t''"]
      k1 a1 a2 a3 a4 by blast
  have b1: "ToLower ''/?a=insert+into+foo+x&b=insert%20into%20bar%20y''
         = ''/?a=insert+into+foo+x&b='' @ ''insert%20into%20'' @ ''bar'' @ ''%20'' @ ''y''"
    by code_simp
  have b2: "Index (ToLower ''/?a=insert+into+foo+x&b=insert%20into%20bar%20y'') ''insert%20into%20''
              = int (length ''/?a=insert+into+foo+x&b='')" by code_simp
  have b3: "Index (''bar'' @ ''%20'' @ ''y'') ''%20'' = int (length ''bar'')" by code_simp
  have b4: "''bar'' \<noteq> [] \<and> ''bar'' \<noteq> ''unknown''" by simp
  have B: "extractTable ''/?a=insert+into+foo+x&b=insert%20into%20bar%20y'' = Some ''bar''"
    using extractTable_unterminated [of "''/?a=insert+into+foo+x&b=insert%20into%20bar%20y''"
        "''/?a=insert+into+foo+x&b=''" _ _ _ "''bar''" "''y''"]
      k2 b1 b2 b3 b4 by blast
  have c1: "ToLower ''/?a=insert+into+foo+x&b=insert%20into%20bar''
         = ''/?a=insert+into+foo+x&b='' @ ''insert%20into%20'' @ ''bar''" by code_simp
  have c2: "Index (ToLower ''/?a=insert+into+foo+x&b=insert%20into%20bar'') ''insert%20into%20''
              = int (length ''/?a=insert+into+foo+x&b='')" by code_simp
  have c3: "\<not> Contains ''bar'' ''%20''" by code_simp
  have c4: "ToLower ''/?a=insert+into+foo+x&b=insert%20into%20bar''
         = ''/?a='' @ ''insert+into+'' @ ''foo'' @ ''+'' @ ''x&b=insert%20into%20bar''"
    by code_simp
  have c5: "Index (ToLower ''/?a=insert+into+foo+x&b=insert%20into%20bar'') ''insert+into+''
              = int (length ''/?a='')" by code_simp
  have c6: "Index (''foo'' @ ''+'' @ ''x&b=insert%20into%20bar'') ''+'' = int (length ''foo'')"
    by code_simp
  have c7: "''foo'' \<noteq> []" by simp
  have C: "extractTable ''/?a=insert+into+foo+x&b=insert%20into%20bar'' = Some ''foo''"
    using extractTable_unterminated [of "''/?a=insert+into+foo+x&b=insert%20into%20bar''"
        "''/?a=insert+into+foo+x&b=''" "''bar''" "''/?a=''" _ "''foo''"
        "''x&b=insert%20into%20bar''"]
      k3 c1 c2 c3 c4 c5 c6 c7 by blast
  from k1 k2 k3 a1 a3 a4 A b1 B c4 C show ?thesis by blast
qed

section \<open>The password redactor\<close>

lemma hidePassword_eq:
  "hidePassword str =
     Some (if Index str ''password='' < 0 then str
           else take (nat (Index str ''password='') + 9) str @ ''*'' @
                (if Index (drop (nat (Index str ''password='')) str) ''&'' < 0 then []
                 else drop (nat (Index str ''password='')
                            + nat (Index (drop (nat (Index str ''password='')) str) ''&'')) str))"
proof (cases "Index str ''password='' < 0")
  case True
  then show ?thesis by (simp add: hidePassword_def)
next
  case False
  define pos where "pos = Index str ''password=''"
  define tail where "tail = drop (nat pos) str"
  define pos2 where "pos2 = Index tail ''&''"
  from False have p: "0 \<le> pos" by (simp add: pos_def)
  from Index_bound [of str "''password=''"] p have b: "nat pos + 9 \<le> length str"
    by (simp add: pos_def)
  from p b have sf: "slice_from str pos = Some tail"
    by (simp add: slice_from_Some tail_def)
  from p b have sh: "slice str 0 (pos + int (length ''password='')) = Some (take (nat pos + 9) str)"
    by (simp add: slice_def nat_add_distrib)
  show ?thesis
  proof (cases "pos2 < 0")
    case True
    with False sf sh show ?thesis
      by (simp add: hidePassword_def Let_def pos_def [symmetric] tail_def [symmetric]
          pos2_def [symmetric] del: length_Cons list.size)
  next
    case nn: False
    from Index_le_length [of tail "''&''"] have "pos2 \<le> int (length tail)"
      by (simp add: pos2_def)
    with p b nn have "slice_from str (pos + pos2) = Some (drop (nat pos + nat pos2) str)"
      by (simp add: slice_from_def slice_def tail_def nat_add_distrib)
    with False nn sf sh show ?thesis
      by (simp add: hidePassword_def Let_def pos_def [symmetric] tail_def [symmetric]
          pos2_def [symmetric] del: length_Cons list.size)
  qed
qed

lemma hidePassword_absent: "\<not> Contains str ''password='' \<Longrightarrow> hidePassword str = Some str"
  by (simp add: hidePassword_eq Contains_def)

lemma drop_append3: "drop (length a + (length b + length c)) (a @ b @ c @ d) = d"
  by simp

lemma len_password: "length ''password='' = 9"
  by simp

lemma hidePassword_present:
  assumes s: "str = pre @ ''password='' @ val @ rest"
    and i: "Index str ''password='' = int (length pre)"
    and v: "CHR ''&'' \<notin> set val"
    and r: "rest = [] \<or> (\<exists>t. rest = CHR ''&'' # t)"
  shows "hidePassword str = Some (pre @ ''password='' @ ''*'' @ rest)"
proof -
  have d: "drop (length pre) str = ''password='' @ val @ rest" by (simp add: s)
  have t: "take (length pre + 9) str = pre @ ''password=''" by (simp add: s)
  have nin: "CHR ''&'' \<notin> set (''password='' @ val)" using v by simp
  from r show ?thesis
  proof
    assume e: "rest = []"
    have "Index (''password='' @ val) ''&'' = - 1"
      by (rule Index_single_notin [OF nin])
    then show ?thesis
      unfolding hidePassword_eq i by (simp add: d t e)
  next
    assume "\<exists>t. rest = CHR ''&'' # t"
    then obtain u where e: "rest = CHR ''&'' # u" by blast
    have x: "Index ((''password='' @ val) @ CHR ''&'' # u) ''&'' = int (length (''password='' @ val))"
      by (rule Index_single_first [OF nin])
    have "drop (length pre + (length ''password='' + length val)) (pre @ ''password='' @ val @ rest) = rest"
      by (rule drop_append3)
    then have dd: "drop (length pre + (9 + length val)) str = rest"
      by (simp only: s len_password)
    from x have y: "Index (''password='' @ val @ rest) ''&'' = int (9 + length val)"
      by (simp add: e)
    show ?thesis
      unfolding hidePassword_eq i
      by (simp only: nat_int d t y dd) simp
  qed
qed

lemma take_append2: "take (length a + length b) (a @ b @ c) = a @ b"
  by simp

lemma hidePassword_shape:
  assumes "0 \<le> Index str ''password=''"
  shows "\<exists>pre rest. hidePassword str = Some (pre @ ''password='' @ ''*'' @ rest)
           \<and> Index (pre @ ''password='' @ ''*'' @ rest) ''password='' = int (length pre)
           \<and> (rest = [] \<or> (\<exists>t. rest = CHR ''&'' # t))"
proof -
  define n where "n = nat (Index str ''password='')"
  define pre where "pre = take n str"
  define pos2 where "pos2 = Index (drop n str) ''&''"
  define rest where "rest = (if pos2 < 0 then [] else drop (n + nat pos2) str)"
  from assms have i: "Index str ''password='' = int n" by (simp add: n_def)
  from Index_at [OF i] obtain u where u: "str = pre @ ''password='' @ u"
    by (auto simp: pre_def)
  from Index_bound [OF assms] have len: "n + 9 \<le> length str" by (simp add: n_def)
  then have lp: "length pre = n" by (simp add: pre_def)
  have "take (length pre + length ''password='') (pre @ ''password='' @ u) = pre @ ''password=''"
    by (rule take_append2)
  then have t: "take (n + 9) str = pre @ ''password=''"
    using u by (simp only: lp len_password)
  have h: "hidePassword str = Some (pre @ ''password='' @ ''*'' @ rest)"
    using assms unfolding hidePassword_eq
    by (simp add: n_def [symmetric] pos2_def [symmetric] rest_def t)
  have "Index (pre @ ''password='' @ u) ''password='' = int (length pre)"
    using i u lp by simp
  then have st: "Index (pre @ ''password='' @ ''*'' @ rest) ''password='' = int (length pre)"
    by (rule Index_stable)
  have "rest = [] \<or> (\<exists>t. rest = CHR ''&'' # t)"
  proof (cases "pos2 < 0")
    case True
    then show ?thesis by (simp add: rest_def)
  next
    case False
    then have "HasPrefix (drop (nat pos2) (drop n str)) ''&''"
      using Index_HasPrefix [of "drop n str" "''&''"] by (simp add: pos2_def)
    then have "\<exists>t. drop (n + nat pos2) str = CHR ''&'' # t"
      by (simp add: HasPrefix_single add.commute)
    with False show ?thesis by (simp add: rest_def)
  qed
  with h st show ?thesis by blast
qed

lemma hidePassword_idem: "hidePassword s = Some r \<Longrightarrow> hidePassword r = Some r"
proof (cases "0 \<le> Index s ''password=''")
  case False
  assume "hidePassword s = Some r"
  with False have "r = s" by (simp add: hidePassword_eq)
  with False show ?thesis by (simp add: hidePassword_eq)
next
  case True
  assume a: "hidePassword s = Some r"
  from hidePassword_shape [OF True] a obtain pre rest
    where r: "r = pre @ ''password='' @ ''*'' @ rest"
      and i: "Index r ''password='' = int (length pre)"
      and e: "rest = [] \<or> (\<exists>t. rest = CHR ''&'' # t)"
    by auto
  have v: "CHR ''&'' \<notin> set ''*''" by simp
  from hidePassword_present [OF r i v e] r show ?thesis by simp
qed

section \<open>Claims about the password redactor\<close>

text \<open>
  C7. The redactor never panics. A string without \<^verbatim>\<open>password=\<close> is returned as it is.
  Otherwise everything from the end of the first \<^verbatim>\<open>password=\<close> up to the next \<^verbatim>\<open>&\<close>, or
  up to the end when no \<^verbatim>\<open>&\<close> follows, becomes one \<^verbatim>\<open>*\<close>, and the text before and
  after stays. Redacting a redacted string changes nothing.
\<close>

theorem hidePassword_redacts:
  "(\<exists>r. hidePassword s = Some r \<and> hidePassword r = Some r)
   \<and> (\<not> Contains s ''password='' \<longrightarrow> hidePassword s = Some s)
   \<and> (s = pre @ ''password='' @ val @ rest
      \<and> Index s ''password='' = int (length pre)
      \<and> CHR ''&'' \<notin> set val
      \<and> (rest = [] \<or> (\<exists>t. rest = CHR ''&'' # t))
    \<longrightarrow> hidePassword s = Some (pre @ ''password='' @ ''*'' @ rest))"
proof (intro conjI impI)
  obtain r where r: "hidePassword s = Some r"
    by (simp add: hidePassword_eq)
  from hidePassword_idem [OF r] r
  show "\<exists>r. hidePassword s = Some r \<and> hidePassword r = Some r" by blast
next
  assume "\<not> Contains s ''password=''"
  then show "hidePassword s = Some s" by (rule hidePassword_absent)
next
  assume "s = pre @ ''password='' @ val @ rest
      \<and> Index s ''password='' = int (length pre)
      \<and> CHR ''&'' \<notin> set val
      \<and> (rest = [] \<or> (\<exists>t. rest = CHR ''&'' # t))"
  then show "hidePassword s = Some (pre @ ''password='' @ ''*'' @ rest)"
    using hidePassword_present by blast
qed

theorem hidePassword_redacts_witness:
  "(Index ''/?user=a&password=secret&query=x'' ''password='' = int (length ''/?user=a&'')
     \<and> CHR ''&'' \<notin> set ''secret''
     \<and> hidePassword ''/?user=a&password=secret&query=x'' = Some ''/?user=a&password=*&query=x''
     \<and> hidePassword ''/?user=a&password=*&query=x'' = Some ''/?user=a&password=*&query=x'')
   \<and> (\<not> Contains ''/?query=x'' ''password='' \<and> hidePassword ''/?query=x'' = Some ''/?query=x'')"
proof -
  have a1: "''/?user=a&password=secret&query=x''
              = ''/?user=a&'' @ ''password='' @ ''secret'' @ ''&query=x''" by simp
  have a2: "Index ''/?user=a&password=secret&query=x'' ''password='' = int (length ''/?user=a&'')"
    by code_simp
  have a3: "CHR ''&'' \<notin> set ''secret''" by simp
  have a4: "''&query=x'' = [] \<or> (\<exists>t. ''&query=x'' = CHR ''&'' # t)" by simp
  have e: "''/?user=a&'' @ ''password='' @ ''*'' @ ''&query=x'' = ''/?user=a&password=*&query=x''"
    by simp
  have A: "hidePassword ''/?user=a&password=secret&query=x'' = Some ''/?user=a&password=*&query=x''"
    using hidePassword_redacts [of "''/?user=a&password=secret&query=x''" "''/?user=a&''"
        "''secret''" "''&query=x''"] a1 a2 a3 a4 unfolding e by blast
  have B: "hidePassword ''/?user=a&password=*&query=x'' = Some ''/?user=a&password=*&query=x''"
    using hidePassword_redacts [of "''/?user=a&password=secret&query=x''"] A by auto
  have c1: "\<not> Contains ''/?query=x'' ''password=''" by code_simp
  have C: "hidePassword ''/?query=x'' = Some ''/?query=x''"
    using hidePassword_redacts [of "''/?query=x''"] c1 by blast
  from a2 a3 A B c1 C show ?thesis by blast
qed

section \<open>The coalescing map under requests, flushes and sweeps\<close>

lemma dorequest_append:
  assumes "appends_to F r"
  shows "dorequest env r st =
     (200, st\<lparr>Req := (Req st)(F \<mapsto> (case Req st F of None \<Rightarrow> body_of r
                                        | Some b \<Rightarrow> b @ delimiter env r @ body_of r)),
              in_requests := in_requests st + 1\<rparr>)"
proof -
  from assms obtain body where b: "Body r = Inr body" and n: "body \<noteq> []"
    by (auto simp: appends_to_def body_of_def split: sum.splits)
  from assms have p: "Path r = ''/''" and m: "Method r = ''POST''"
    and f: "RawPath r @ ''?'' @ RawQuery r = F"
    by (simp_all add: appends_to_def)
  have bo: "body_of r = body" by (simp add: body_of_def b)
  show ?thesis
    unfolding dorequest_def p m b f Let_def bo
    using n by (cases "Req st F") (simp_all add: lookup_def)
qed

lemma dorequest_other:
  assumes "\<not> appends_to F r"
  shows "Req (snd (dorequest env r st)) F = Req st F"
proof (cases "Path r = ''/'' \<and> Method r = ''POST'' \<and> body_of r \<noteq> []")
  case False
  then show ?thesis
    by (auto simp: dorequest_def body_of_def Let_def split: sum.splits)
next
  case True
  then have "appends_to (RawPath r @ ''?'' @ RawQuery r) r" by (simp add: appends_to_def)
  from dorequest_append [OF this] have
    "Req (snd (dorequest env r st)) F = ((Req st)(RawPath r @ ''?'' @ RawQuery r \<mapsto>
        (case Req st (RawPath r @ ''?'' @ RawQuery r) of None \<Rightarrow> body_of r
           | Some b \<Rightarrow> b @ delimiter env r @ body_of r))) F"
    by simp
  moreover from True assms have "RawPath r @ ''?'' @ RawQuery r \<noteq> F"
    by (simp add: appends_to_def)
  ultimately show ?thesis by (simp only: fun_upd_other)
qed

lemma dorequest_rejected:
  "\<not> (Path r = ''/'' \<and> Method r = ''POST'' \<and> body_of r \<noteq> []) \<Longrightarrow> snd (dorequest env r st) = st"
  by (auto simp: dorequest_def body_of_def Let_def split: sum.splits)

lemma send_Req: "Req (snd (send env key val silent st)) = Req st"
  by (simp add: send_def Let_def split: option.splits sum.splits)

lemma flush_key_Req: "Req (flush_key env key st) = (Req st)(key := None)"
proof -
  obtain e st' where s: "send env key (lookup (Req st) key) True st = (e, st')"
    by (cases "send env key (lookup (Req st) key) True st")
  with send_Req [of env key "lookup (Req st) key" True st] have "Req st' = Req st" by simp
  with s show ?thesis by (simp add: flush_key_def Let_def)
qed

lemma flush_keys_run: "flush_keys env keys st = run env (map Flush keys) st"
  by (induction keys arbitrary: st) simp_all

lemma send_keys_Req: "Req (snd (send_keys env keys st)) = Req st"
proof (induction keys arbitrary: st)
  case Nil
  show ?case by simp
next
  case (Cons k keys)
  obtain key got where k: "k = (key, got)" by (cases k)
  show ?case
  proof (cases got)
    case (Inl e)
    then show ?thesis by (simp add: k)
  next
    case (Inr val)
    obtain e st' where s: "send env key val False st = (e, st')"
      by (cases "send env key val False st")
    with send_Req [of env key val False st] have r: "Req st' = Req st" by simp
    show ?thesis
    proof (cases e)
      case None
      with Cons.IH [of st'] r s Inr k show ?thesis by simp
    next
      case (Some a)
      with r s Inr k show ?thesis by simp
    qed
  qed
qed

lemma DeleteFile_Req: "Req (DeleteFile file st) = Req st"
  by (simp add: DeleteFile_def)

lemma checkErr_files_Req: "Req (snd (checkErr_files env list st)) = Req st"
proof (induction list arbitrary: st)
  case Nil
  show ?case by simp
next
  case (Cons f fs)
  show ?case
  proof (cases "pudge_Open f st")
    case (Inl e)
    then show ?thesis by simp
  next
    case (Inr keys)
    obtain e st' where s: "send_keys env keys st = (e, st')"
      by (cases "send_keys env keys st")
    with send_keys_Req [of env keys st] have r: "Req st' = Req st" by simp
    show ?thesis
    proof (cases e)
      case None
      with Cons.IH [of "DeleteFile f st'"] r s Inr show ?thesis
        by (simp add: DeleteFile_Req)
    next
      case (Some a)
      with r s Inr show ?thesis by simp
    qed
  qed
qed

lemma checkErr_Req: "Req (snd (checkErr env st)) = Req st"
  by (simp add: checkErr_def checkErr_files_Req split: sum.splits)

lemma step_Req_other:
  assumes "e \<noteq> Flush F" and "\<And>r. e = Request r \<Longrightarrow> \<not> appends_to F r"
  shows "Req (step env e st) F = Req st F"
proof (cases e)
  case (Request r)
  with assms(2) have "\<not> appends_to F r" by simp
  with Request show ?thesis by (simp add: dorequest_other)
next
  case (Flush key)
  with assms(1) have "key \<noteq> F" by simp
  with Flush show ?thesis by (simp add: flush_key_Req)
next
  case Sweep
  then show ?thesis by (simp add: checkErr_Req)
qed

lemma joined_Cons2: "joined env (r # r' # rs) = body_of r @ delimiter env r' @ joined env (r' # rs)"
  by simp

lemma run_Req:
  "Flush F \<notin> set evs \<Longrightarrow>
   Req (run env evs st) F =
     (case appends F evs of
        [] \<Rightarrow> Req st F
      | r # rs \<Rightarrow> Some ((case Req st F of None \<Rightarrow> [] | Some b \<Rightarrow> b @ delimiter env r)
                        @ joined env (r # rs)))"
proof (induction evs arbitrary: st)
  case Nil
  show ?case by simp
next
  case (Cons e es)
  then have nf: "Flush F \<notin> set es" and ne: "e \<noteq> Flush F" by auto
  show ?case
  proof (cases "\<exists>r. e = Request r \<and> appends_to F r")
    case False
    then have o: "Req (step env e st) F = Req st F"
      using ne by (intro step_Req_other) auto
    from False have a: "appends F (e # es) = appends F es"
      by (cases e) auto
    show ?thesis
      unfolding a run.simps Cons.IH [OF nf] o ..
  next
    case True
    then obtain r where e: "e = Request r" and ap: "appends_to F r" by blast
    have s: "Req (step env e st) F =
        Some ((case Req st F of None \<Rightarrow> [] | Some b \<Rightarrow> b @ delimiter env r) @ body_of r)"
      by (simp add: e dorequest_append [OF ap] split: option.splits)
    have a: "appends F (e # es) = r # appends F es" by (simp add: e ap)
    show ?thesis
      unfolding a run.simps Cons.IH [OF nf] s
      by (cases "appends F es") (simp_all del: joined.simps add: joined_Cons2, simp)
  qed
qed

lemma send_sent:
  "sent (snd (send env key val silent st))
     = sent st @ [(key, val, silent, fst (send env key val silent st))]"
  by (simp add: send_def Let_def split: option.splits sum.splits)

lemma flush_key_sent:
  "sent (flush_key env F st)
     = sent st @ [(F, lookup (Req st) F, True, fst (send env F (lookup (Req st) F) True st))]"
proof -
  obtain e st' where s: "send env F (lookup (Req st) F) True st = (e, st')"
    by (cases "send env F (lookup (Req st) F) True st")
  with send_sent [of env F "lookup (Req st) F" True st]
  have "sent st' = sent st @ [(F, lookup (Req st) F, True, e)]" by simp
  with s show ?thesis by (simp add: flush_key_def Let_def)
qed

lemma appends_to_post: "body \<noteq> [] \<Longrightarrow> appends_to (''?'' @ q) (post q body)"
  by (simp add: appends_to_def post_def body_of_def)

lemma fingerprint_inj:
  assumes "CHR ''?'' \<notin> set a" and "CHR ''?'' \<notin> set a'"
    and "a @ ''?'' @ b = a' @ ''?'' @ b'"
  shows "a = a' \<and> b = b'"
proof -
  have t: "takeWhile (\<lambda>c. c \<noteq> CHR ''?'') (x @ ''?'' @ y) = x" if "CHR ''?'' \<notin> set x" for x y
    using that by (induction x) auto
  from assms(3) have "takeWhile (\<lambda>c. c \<noteq> CHR ''?'') (a @ ''?'' @ b)
      = takeWhile (\<lambda>c. c \<noteq> CHR ''?'') (a' @ ''?'' @ b')" by simp
  then have "a = a'" by (simp only: t [OF assms(1)] t [OF assms(2)])
  with assms(3) show ?thesis by simp
qed

section \<open>Claims about the ingest handler and the coalescing map\<close>

text \<open>
  C9. A \<^verbatim>\<open>POST\<close> to the root path with an empty body is answered 405 and changes
  nothing: the whole state after the request is the state before it, so the map, every
  buffer in it and the counter \<^verbatim>\<open>in\<close> are as they were.
\<close>

theorem empty_body_rejected:
  "Path r = ''/'' \<and> Method r = ''POST'' \<and> Body r = Inr [] \<longrightarrow> dorequest env r st = (405, st)"
  by (simp add: dorequest_def)

theorem empty_body_rejected_witness:
  "Path (post ''query=INSERT+INTO+t'' []) = ''/''
   \<and> Method (post ''query=INSERT+INTO+t'' []) = ''POST''
   \<and> Body (post ''query=INSERT+INTO+t'' []) = Inr []
   \<and> dorequest env0 (post ''query=INSERT+INTO+t'' []) (start NoDir) = (405, start NoDir)"
  using empty_body_rejected [of "post ''query=INSERT+INTO+t'' []" env0 "start NoDir"]
  by (simp add: post_def)

text \<open>
  In terms of the fields of \<^verbatim>\<open>r.URL\<close>: the key under which a \<^verbatim>\<open>POST\<close> is stored is
  \<^verbatim>\<open>RawPath\<close>, then \<^verbatim>\<open>?\<close>, then \<^verbatim>\<open>RawQuery\<close>, byte for byte, and no other key of the map
  changes. A parsed URL has no \<^verbatim>\<open>?\<close> in its path; for such requests, two that differ in
  \<^verbatim>\<open>RawPath\<close> or in \<^verbatim>\<open>RawQuery\<close> have different keys, and handling one leaves the buffer
  of the other as it was.
\<close>

lemma fingerprint_fields:
  "(Path r = ''/'' \<and> Method r = ''POST'' \<and> Body r = Inr body \<and> body \<noteq> [] \<longrightarrow>
      (\<exists>buf. Req (snd (dorequest env r st)) (RawPath r @ ''?'' @ RawQuery r) = Some (buf @ body))
      \<and> (\<forall>k. k \<noteq> RawPath r @ ''?'' @ RawQuery r \<longrightarrow> Req (snd (dorequest env r st)) k = Req st k))
   \<and> (CHR ''?'' \<notin> set (RawPath r) \<and> CHR ''?'' \<notin> set (RawPath r')
        \<and> (RawPath r \<noteq> RawPath r' \<or> RawQuery r \<noteq> RawQuery r') \<longrightarrow>
      RawPath r @ ''?'' @ RawQuery r \<noteq> RawPath r' @ ''?'' @ RawQuery r'
      \<and> Req (snd (dorequest env r' st)) (RawPath r @ ''?'' @ RawQuery r)
          = Req st (RawPath r @ ''?'' @ RawQuery r))"
proof (intro conjI impI allI)
  assume a: "Path r = ''/'' \<and> Method r = ''POST'' \<and> Body r = Inr body \<and> body \<noteq> []"
  then have ap: "appends_to (RawPath r @ ''?'' @ RawQuery r) r" and b: "body_of r = body"
    by (simp_all add: appends_to_def body_of_def)
  show "\<exists>buf. Req (snd (dorequest env r st)) (RawPath r @ ''?'' @ RawQuery r) = Some (buf @ body)"
  proof (cases "Req st (RawPath r @ ''?'' @ RawQuery r)")
    case None
    then have "Req (snd (dorequest env r st)) (RawPath r @ ''?'' @ RawQuery r) = Some ([] @ body)"
      by (simp add: dorequest_append [OF ap] b)
    then show ?thesis by blast
  next
    case (Some old)
    then have "Req (snd (dorequest env r st)) (RawPath r @ ''?'' @ RawQuery r)
        = Some ((old @ delimiter env r) @ body)"
      by (simp add: dorequest_append [OF ap] b)
    then show ?thesis by blast
  qed
  fix k assume "k \<noteq> RawPath r @ ''?'' @ RawQuery r"
  then have "\<not> appends_to k r" by (auto simp: appends_to_def)
  then show "Req (snd (dorequest env r st)) k = Req st k" by (rule dorequest_other)
next
  assume a: "CHR ''?'' \<notin> set (RawPath r) \<and> CHR ''?'' \<notin> set (RawPath r')
        \<and> (RawPath r \<noteq> RawPath r' \<or> RawQuery r \<noteq> RawQuery r')"
  then show d: "RawPath r @ ''?'' @ RawQuery r \<noteq> RawPath r' @ ''?'' @ RawQuery r'"
    using fingerprint_inj [of "RawPath r" "RawPath r'" "RawQuery r" "RawQuery r'"] by blast
  then have "\<not> appends_to (RawPath r @ ''?'' @ RawQuery r) r'"
    by (auto simp: appends_to_def)
  then show "Req (snd (dorequest env r' st)) (RawPath r @ ''?'' @ RawQuery r)
          = Req st (RawPath r @ ''?'' @ RawQuery r)" by (rule dorequest_other)
qed

text \<open>
  What \<^verbatim>\<open>net/url\<close> makes of the path of a request that the handler accepts: a target
  whose decoded path is \<^verbatim>\<open>/\<close> has the path \<^verbatim>\<open>/\<close> as sent, and its \<^verbatim>\<open>RawPath\<close> is empty,
  so that the key is \<^verbatim>\<open>?\<close> followed by the raw query.
\<close>

lemma unescape_Nil: "unescape s = Some [] \<Longrightarrow> s = []"
  by (cases s) (auto split: if_splits list.splits)

lemma escape_root: "escape ''/'' = ''/''"
  by (simp add: escape_def shouldEscape_def)

lemma takeWhile_root:
  "HasPrefix t ''/'' \<Longrightarrow> \<exists>x. takeWhile (\<lambda>c. c \<noteq> CHR ''?'') t = CHR ''/'' # x"
  by (cases t) (auto simp: HasPrefix_def)

lemma setPath_root:
  assumes "setPath (CHR ''/'' # x) = Some (''/'', raw)"
  shows "x = [] \<and> raw = []"
proof -
  from assms obtain path where u: "unescape (CHR ''/'' # x) = Some path" and p: "path = ''/''"
    and r: "raw = (if CHR ''/'' # x = escape path then [] else CHR ''/'' # x)"
    by (auto simp: setPath_def split: option.splits)
  from u p have "unescape x = Some []" by auto
  then have x: "x = []" by (rule unescape_Nil)
  with r p show ?thesis by (simp add: escape_root)
qed

lemma received_root:
  assumes "received method rawURL body = Some r" and "Path r = ''/''"
  shows "RawPath r = [] \<and> takeWhile (\<lambda>c. c \<noteq> CHR ''?'') rawURL = ''/''
         \<and> RawPath r @ ''?'' @ RawQuery r = ''?'' @ drop 2 rawURL"
proof -
  from assms(1) obtain path raw query where
    p: "ParseRequestURI rawURL = Some (path, raw, query)"
    and r: "r = \<lparr>Path = path, RawPath = raw, RawQuery = query, Method = method, Body = body\<rparr>"
    by (auto simp: received_def split: option.splits)
  from p have h: "HasPrefix rawURL ''/''"
    and sp: "setPath (takeWhile (\<lambda>c. c \<noteq> CHR ''?'') rawURL) = Some (path, raw)"
    and q: "query = drop (length (takeWhile (\<lambda>c. c \<noteq> CHR ''?'') rawURL) + 1) rawURL"
    by (auto simp: ParseRequestURI_def Let_def split: if_splits option.splits)
  from takeWhile_root [OF h] obtain x
    where x: "takeWhile (\<lambda>c. c \<noteq> CHR ''?'') rawURL = CHR ''/'' # x"
    by blast
  from assms(2) r have "path = ''/''" by simp
  with sp x have "x = [] \<and> raw = []" by (intro setPath_root) simp
  with x q r show ?thesis by (simp add: numeral_2_eq_2)
qed

text \<open>
  C5. The request \<^verbatim>\<open>POST /?query=INSERT+INTO+t\<close> has the raw path \<^verbatim>\<open>/\<close> and the raw query
  \<^verbatim>\<open>query=INSERT+INTO+t\<close>, so its fingerprint should be \<^verbatim>\<open>/?query=INSERT+INTO+t\<close>. The
  handler reads \<^verbatim>\<open>r.URL.RawPath\<close>, which is empty for this request: the body is stored
  under \<^verbatim>\<open>?query=INSERT+INTO+t\<close>, and nothing is stored under the key with the path.
\<close>

theorem fingerprint_drops_path:
  "received ''POST'' ''/?query=INSERT+INTO+t'' (Inr ''1'') = Some (post ''query=INSERT+INTO+t'' ''1'')
   \<and> Req (snd (dorequest env0 (post ''query=INSERT+INTO+t'' ''1'') (start NoDir)))
         ''?query=INSERT+INTO+t'' = Some ''1''
   \<and> Req (snd (dorequest env0 (post ''query=INSERT+INTO+t'' ''1'') (start NoDir)))
         (''/'' @ ''?'' @ ''query=INSERT+INTO+t'') = None"
proof -
  have u: "unescape ''/'' = Some ''/''" by simp
  have a: "received ''POST'' ''/?query=INSERT+INTO+t'' (Inr ''1'')
             = Some (post ''query=INSERT+INTO+t'' ''1'')"
    by (simp add: received_def ParseRequestURI_def HasPrefix_def setPath_def u escape_root
        post_def)
  have ap: "appends_to ''?query=INSERT+INTO+t'' (post ''query=INSERT+INTO+t'' ''1'')"
    using appends_to_post [of "''1''" "''query=INSERT+INTO+t''"] by simp
  have b: "Req (snd (dorequest env0 (post ''query=INSERT+INTO+t'' ''1'') (start NoDir)))
         ''?query=INSERT+INTO+t'' = Some ''1''"
    by (simp add: dorequest_append [OF ap] start_def) (simp add: body_of_def post_def)
  have c: "Req (snd (dorequest env0 (post ''query=INSERT+INTO+t'' ''1'') (start NoDir)))
         (''/'' @ ''?'' @ ''query=INSERT+INTO+t'') = None"
    by (simp add: dorequest_append [OF ap] start_def)
  from a b c show ?thesis by blast
qed

text \<open>
  C2, as the specification states it, fails when the configured delimiter is itself
  empty (\<^verbatim>\<open>-delim ""\<close>): the delimiter of a request is then empty although its query
  ends neither in \<^verbatim>\<open>FORMAT TSV\<close> nor in \<^verbatim>\<open>FORMAT CSV\<close>.
\<close>

theorem delimiter_iff_counterexample:
  "\<not> (delimiter (env0\<lparr>delim := []\<rparr>) (post ''query=INSERT+INTO+t+VALUES'' ''2'') = []
       \<longleftrightarrow> (HasSuffix (query_param (env0\<lparr>delim := []\<rparr>)
                          (RawQuery (post ''query=INSERT+INTO+t+VALUES'' ''2''))) ''FORMAT TSV''
            \<or> HasSuffix (query_param (env0\<lparr>delim := []\<rparr>)
                          (RawQuery (post ''query=INSERT+INTO+t+VALUES'' ''2''))) ''FORMAT CSV''))"
proof -
  have q: "query_param (env0\<lparr>delim := []\<rparr>) (RawQuery (post ''query=INSERT+INTO+t+VALUES'' ''2''))
             = ''INSERT INTO t VALUES''"
    by (simp add: env0_def post_def plain_query_def HasPrefix_def)
  have a: "\<not> HasSuffix ''INSERT INTO t VALUES'' ''FORMAT TSV''" by (simp add: HasSuffix_def)
  have b: "\<not> HasSuffix ''INSERT INTO t VALUES'' ''FORMAT CSV''" by (simp add: HasSuffix_def)
  have "delimiter (env0\<lparr>delim := []\<rparr>) (post ''query=INSERT+INTO+t+VALUES'' ''2'') = []"
    unfolding delimiter_def Let_def q using a b by (simp add: env0_def)
  with a b show ?thesis unfolding q by blast
qed

text \<open>
  C2, amended. The delimiter of a request is empty when its decoded \<^verbatim>\<open>query\<close> parameter
  ends in \<^verbatim>\<open>FORMAT TSV\<close> or \<^verbatim>\<open>FORMAT CSV\<close> (compared byte by byte) and is the configured
  delimiter otherwise; so, when the configured delimiter is not empty, it is empty
  exactly in the first case. It is computed from the request being appended: a \<^verbatim>\<open>POST\<close>
  onto an existing buffer stores the old buffer, then this request's delimiter, then
  its body.
\<close>

theorem delimiter_choice:
  "(HasSuffix (query_param env (RawQuery r)) ''FORMAT TSV''
      \<or> HasSuffix (query_param env (RawQuery r)) ''FORMAT CSV'' \<longrightarrow> delimiter env r = [])
   \<and> (\<not> (HasSuffix (query_param env (RawQuery r)) ''FORMAT TSV''
          \<or> HasSuffix (query_param env (RawQuery r)) ''FORMAT CSV'') \<longrightarrow>
        delimiter env r = delim env)
   \<and> (delim env \<noteq> [] \<longrightarrow>
        (delimiter env r = [] \<longleftrightarrow>
           HasSuffix (query_param env (RawQuery r)) ''FORMAT TSV''
           \<or> HasSuffix (query_param env (RawQuery r)) ''FORMAT CSV''))
   \<and> (Path r = ''/'' \<and> Method r = ''POST'' \<and> Body r = Inr body \<and> body \<noteq> []
        \<and> Req st (RawPath r @ ''?'' @ RawQuery r) = Some old \<longrightarrow>
        Req (snd (dorequest env r st)) (RawPath r @ ''?'' @ RawQuery r)
          = Some (old @ delimiter env r @ body))"
proof (intro conjI impI)
  assume a: "Path r = ''/'' \<and> Method r = ''POST'' \<and> Body r = Inr body \<and> body \<noteq> []
        \<and> Req st (RawPath r @ ''?'' @ RawQuery r) = Some old"
  then have ap: "appends_to (RawPath r @ ''?'' @ RawQuery r) r" and b: "body_of r = body"
    by (simp_all add: appends_to_def body_of_def)
  from a show "Req (snd (dorequest env r st)) (RawPath r @ ''?'' @ RawQuery r)
          = Some (old @ delimiter env r @ body)"
    by (simp add: dorequest_append [OF ap] b)
qed (auto simp: delimiter_def Let_def)

theorem delimiter_choice_witness:
  "(HasSuffix (query_param env0 (RawQuery (post ''query=INSERT+INTO+t+FORMAT+TSV'' ''2''))) ''FORMAT TSV''
     \<and> delimiter env0 (post ''query=INSERT+INTO+t+FORMAT+TSV'' ''2'') = [])
   \<and> (\<not> (HasSuffix (query_param env0 (RawQuery (post ''query=INSERT+INTO+t+VALUES'' ''2''))) ''FORMAT TSV''
          \<or> HasSuffix (query_param env0 (RawQuery (post ''query=INSERT+INTO+t+VALUES'' ''2''))) ''FORMAT CSV'')
     \<and> delim env0 \<noteq> []
     \<and> delimiter env0 (post ''query=INSERT+INTO+t+VALUES'' ''2'') = '','')
   \<and> (Req ((start NoDir)\<lparr>Req := [''?query=INSERT+INTO+t+VALUES'' \<mapsto> ''1'']\<rparr>)
          ''?query=INSERT+INTO+t+VALUES'' = Some ''1''
     \<and> Req (snd (dorequest env0 (post ''query=INSERT+INTO+t+VALUES'' ''2'')
               ((start NoDir)\<lparr>Req := [''?query=INSERT+INTO+t+VALUES'' \<mapsto> ''1'']\<rparr>)))
          ''?query=INSERT+INTO+t+VALUES'' = Some ''1,2'')"
proof -
  define r1 where "r1 = post ''query=INSERT+INTO+t+FORMAT+TSV'' ''2''"
  define r2 where "r2 = post ''query=INSERT+INTO+t+VALUES'' ''2''"
  define st where "st = (start NoDir)\<lparr>Req := [''?query=INSERT+INTO+t+VALUES'' \<mapsto> ''1'']\<rparr>"
  have q1: "query_param env0 (RawQuery r1) = ''INSERT INTO t FORMAT TSV''"
    by (simp add: env0_def r1_def post_def plain_query_def HasPrefix_def)
  have q2: "query_param env0 (RawQuery r2) = ''INSERT INTO t VALUES''"
    by (simp add: env0_def r2_def post_def plain_query_def HasPrefix_def)
  have a: "HasSuffix (query_param env0 (RawQuery r1)) ''FORMAT TSV''"
    unfolding q1 by (simp add: HasSuffix_def)
  have b: "\<not> (HasSuffix (query_param env0 (RawQuery r2)) ''FORMAT TSV''
          \<or> HasSuffix (query_param env0 (RawQuery r2)) ''FORMAT CSV'')"
    unfolding q2 by (simp add: HasSuffix_def)
  have c: "delim env0 \<noteq> []" and c': "delim env0 = '',''" by (simp_all add: env0_def)
  have f: "RawPath r2 @ ''?'' @ RawQuery r2 = ''?query=INSERT+INTO+t+VALUES''"
    by (simp add: r2_def post_def)
  have d: "Path r2 = ''/'' \<and> Method r2 = ''POST'' \<and> Body r2 = Inr ''2'' \<and> ''2'' \<noteq> []
        \<and> Req st (RawPath r2 @ ''?'' @ RawQuery r2) = Some ''1''"
    unfolding f by (simp add: r2_def post_def st_def)
  from delimiter_choice [of env0 r1] a have A: "delimiter env0 r1 = []" by blast
  from delimiter_choice [of env0 r2] b c' have B: "delimiter env0 r2 = '',''" by metis
  from delimiter_choice [of env0 r2 "''2''" st "''1''"] d
  have "Req (snd (dorequest env0 r2 st)) (RawPath r2 @ ''?'' @ RawQuery r2)
          = Some (''1'' @ delimiter env0 r2 @ ''2'')" by blast
  then have C: "Req (snd (dorequest env0 r2 st)) ''?query=INSERT+INTO+t+VALUES'' = Some ''1,2''"
    unfolding f B by simp
  have D: "Req st ''?query=INSERT+INTO+t+VALUES'' = Some ''1''" by (simp add: st_def)
  from a A b c B C D show ?thesis unfolding r1_def r2_def st_def by blast
qed

lemma step_nonempty:
  assumes "\<forall>F b. Req st F = Some b \<longrightarrow> b \<noteq> []"
  shows "\<forall>F b. Req (step env e st) F = Some b \<longrightarrow> b \<noteq> []"
proof (intro allI impI)
  fix F b assume s: "Req (step env e st) F = Some b"
  show "b \<noteq> []"
  proof (cases "\<exists>r. e = Request r \<and> appends_to F r")
    case True
    then obtain r where e: "e = Request r" and ap: "appends_to F r" by blast
    then have "body_of r \<noteq> []" by (simp add: appends_to_def)
    with s show ?thesis
      by (auto simp: e dorequest_append [OF ap] split: option.splits)
  next
    case False
    show ?thesis
    proof (cases "e = Flush F")
      case True
      with s show ?thesis by (simp add: flush_key_Req)
    next
      case nf: False
      with False have "Req (step env e st) F = Req st F"
        by (intro step_Req_other) auto
      with s assms show ?thesis by simp
    qed
  qed
qed

lemma run_nonempty:
  "\<forall>F b. Req st F = Some b \<longrightarrow> b \<noteq> [] \<Longrightarrow> \<forall>F b. Req (run env evs st) F = Some b \<longrightarrow> b \<noteq> []"
proof (induction evs arbitrary: st)
  case Nil
  then show ?case by simp
next
  case (Cons e es)
  from Cons.IH [OF step_nonempty [OF Cons.prems]] show ?case by simp
qed

lemma step_creates:
  assumes "Req st F = None" and "Req (step env e st) F \<noteq> None"
  shows "\<exists>r. e = Request r \<and> appends_to F r"
proof (rule ccontr)
  assume n: "\<not> (\<exists>r. e = Request r \<and> appends_to F r)"
  show False
  proof (cases "e = Flush F")
    case True
    with assms(2) show ?thesis by (simp add: flush_key_Req)
  next
    case False
    with n have "Req (step env e st) F = Req st F"
      by (intro step_Req_other) auto
    with assms show ?thesis by simp
  qed
qed

text \<open>
  C8. Every buffer in the map is non-empty, after every step of every run from the
  start (and from any state in which this holds). An entry comes into being only
  through a \<^verbatim>\<open>POST\<close> to the root with a non-empty body and that fingerprint, and the
  flusher removes the entry it drains.
\<close>

theorem buffers_nonempty:
  "(\<forall>F b. Req (start d) F = Some b \<longrightarrow> b \<noteq> [])
   \<and> ((\<forall>F b. Req st F = Some b \<longrightarrow> b \<noteq> []) \<longrightarrow>
        (\<forall>F b. Req (run env evs st) F = Some b \<longrightarrow> b \<noteq> []))
   \<and> (Req st F = None \<and> Req (step env e st) F \<noteq> None \<longrightarrow>
        (\<exists>r. e = Request r \<and> appends_to F r))
   \<and> Req (flush_key env F st) F = None"
proof (intro conjI impI)
  show "\<forall>F b. Req (start d) F = Some b \<longrightarrow> b \<noteq> []" by (simp add: start_def)
  show "Req (flush_key env F st) F = None" by (simp add: flush_key_Req)
next
  assume "\<forall>F b. Req st F = Some b \<longrightarrow> b \<noteq> []"
  then show "\<forall>F b. Req (run env evs st) F = Some b \<longrightarrow> b \<noteq> []" by (rule run_nonempty)
next
  assume "Req st F = None \<and> Req (step env e st) F \<noteq> None"
  then show "\<exists>r. e = Request r \<and> appends_to F r" using step_creates by blast
qed

theorem buffers_nonempty_witness:
  "Req (start NoDir) ''?query=INSERT+INTO+t+VALUES'' = None
   \<and> Req (run env0 [Request (post ''query=INSERT+INTO+t+VALUES'' ''1''),
                     Request (post ''query=INSERT+INTO+t+VALUES'' [])] (start NoDir))
        ''?query=INSERT+INTO+t+VALUES'' = Some ''1''
   \<and> ''1'' \<noteq> []
   \<and> appends_to ''?query=INSERT+INTO+t+VALUES'' (post ''query=INSERT+INTO+t+VALUES'' ''1'')"
proof -
  define F where "F = ''?query=INSERT+INTO+t+VALUES''"
  define r where "r = post ''query=INSERT+INTO+t+VALUES'' ''1''"
  define r0 where "r0 = post ''query=INSERT+INTO+t+VALUES'' []"
  have ap: "appends_to F r"
    using appends_to_post [of "''1''" "''query=INSERT+INTO+t+VALUES''"]
    by (simp add: F_def r_def)
  have n: "Req (start NoDir) F = None" by (simp add: start_def)
  have s1: "Req (step env0 (Request r) (start NoDir)) F = Some ''1''"
    by (simp add: dorequest_append [OF ap] n) (simp add: body_of_def r_def post_def)
  have "\<not> appends_to F r0" by (simp add: appends_to_def r0_def post_def body_of_def)
  then have s2: "Req (run env0 [Request r, Request r0] (start NoDir)) F = Some ''1''"
    using s1 by (simp add: dorequest_other)
  from buffers_nonempty [of NoDir "start NoDir" env0 "[Request r, Request r0]"] s2
  have ne: "''1'' \<noteq> []" by blast
  from buffers_nonempty [of NoDir "start NoDir" env0 _ F "Request r"] n s1
  have "\<exists>r'. Request r = Request r' \<and> appends_to F r'" by simp
  then have "appends_to F r" by simp
  with n s2 ne show ?thesis unfolding F_def r_def r0_def by blast
qed

text \<open>
  C1. From a state in which \<open>F\<close> is not in the map, and through any run in which \<open>F\<close>
  is not flushed, the buffer of \<open>F\<close> is the bodies of the accepted \<^verbatim>\<open>POST\<close>s of
  fingerprint \<open>F\<close>, in order, with the delimiter of each request but the first before
  its body; whatever else happens in the run does not matter. Flushing \<open>F\<close> hands
  exactly the stored buffer to \<^verbatim>\<open>send\<close> and removes \<open>F\<close>, so that the next \<^verbatim>\<open>POST\<close> of
  fingerprint \<open>F\<close> stores its body alone.
\<close>

theorem concatenation_fidelity:
  "(Req st F = None \<and> Flush F \<notin> set evs \<longrightarrow>
      Req (run env evs st) F
        = (case appends F evs of [] \<Rightarrow> None | r # rs \<Rightarrow> Some (joined env (r # rs))))
   \<and> sent (flush_key env F st)
       = sent st @ [(F, lookup (Req st) F, True, fst (send env F (lookup (Req st) F) True st))]
   \<and> Req (flush_key env F st) F = None
   \<and> (appends_to F r \<longrightarrow>
        Req (snd (dorequest env r (flush_key env F st))) F = Some (body_of r))"
proof (intro conjI impI)
  assume a: "Req st F = None \<and> Flush F \<notin> set evs"
  then have "Flush F \<notin> set evs" by blast
  from run_Req [OF this, of env st] a
  show "Req (run env evs st) F
        = (case appends F evs of [] \<Rightarrow> None | r # rs \<Rightarrow> Some (joined env (r # rs)))"
    by (simp split: list.splits)
next
  show "sent (flush_key env F st)
       = sent st @ [(F, lookup (Req st) F, True, fst (send env F (lookup (Req st) F) True st))]"
    by (rule flush_key_sent)
  show "Req (flush_key env F st) F = None" by (simp add: flush_key_Req)
next
  assume "appends_to F r"
  then show "Req (snd (dorequest env r (flush_key env F st))) F = Some (body_of r)"
    by (simp add: dorequest_append flush_key_Req)
qed

theorem concatenation_fidelity_witness:
  "Req (start NoDir) ''?query=INSERT+INTO+t+VALUES'' = None
   \<and> Flush ''?query=INSERT+INTO+t+VALUES''
        \<notin> set [Request (post ''query=INSERT+INTO+t+VALUES'' ''1''), Flush ''?query=SELECT+1'',
                Request (post ''query=INSERT+INTO+t+VALUES'' ''2'')]
   \<and> Req (run env0 [Request (post ''query=INSERT+INTO+t+VALUES'' ''1''), Flush ''?query=SELECT+1'',
                     Request (post ''query=INSERT+INTO+t+VALUES'' ''2'')] (start NoDir))
        ''?query=INSERT+INTO+t+VALUES'' = Some ''1,2''
   \<and> Req (run env0 [Request (post ''query=INSERT+INTO+t+FORMAT+TSV'' ''1''),
                     Request (post ''query=INSERT+INTO+t+FORMAT+TSV'' ''2'')] (start NoDir))
        ''?query=INSERT+INTO+t+FORMAT+TSV'' = Some ''12''
   \<and> appends_to ''?query=INSERT+INTO+t+VALUES'' (post ''query=INSERT+INTO+t+VALUES'' ''3'')
   \<and> Req (snd (dorequest env0 (post ''query=INSERT+INTO+t+VALUES'' ''3'')
             (flush_key env0 ''?query=INSERT+INTO+t+VALUES''
                (run env0 [Request (post ''query=INSERT+INTO+t+VALUES'' ''1''),
                           Flush ''?query=SELECT+1'',
                           Request (post ''query=INSERT+INTO+t+VALUES'' ''2'')] (start NoDir)))))
        ''?query=INSERT+INTO+t+VALUES'' = Some ''3''"
proof -
  define F where "F = ''?query=INSERT+INTO+t+VALUES''"
  define G where "G = ''?query=INSERT+INTO+t+FORMAT+TSV''"
  define r1 where "r1 = post ''query=INSERT+INTO+t+VALUES'' ''1''"
  define r2 where "r2 = post ''query=INSERT+INTO+t+VALUES'' ''2''"
  define r3 where "r3 = post ''query=INSERT+INTO+t+VALUES'' ''3''"
  define t1 where "t1 = post ''query=INSERT+INTO+t+FORMAT+TSV'' ''1''"
  define t2 where "t2 = post ''query=INSERT+INTO+t+FORMAT+TSV'' ''2''"
  define evs where "evs = [Request r1, Flush ''?query=SELECT+1'', Request r2]"
  have a1: "appends_to F r1" and a2: "appends_to F r2" and a3: "appends_to F r3"
    using appends_to_post [of _ "''query=INSERT+INTO+t+VALUES''"]
    by (simp_all add: F_def r1_def r2_def r3_def)
  have b1: "appends_to G t1" and b2: "appends_to G t2"
    using appends_to_post [of _ "''query=INSERT+INTO+t+FORMAT+TSV''"]
    by (simp_all add: G_def t1_def t2_def)
  have n: "Req (start NoDir) F = None" and n': "Req (start NoDir) G = None"
    by (simp_all add: start_def)
  have nf: "Flush F \<notin> set evs" by (simp add: evs_def F_def)
  have nf': "Flush G \<notin> set [Request t1, Request t2]" by simp
  have ap: "appends F evs = [r1, r2]" by (simp add: evs_def a1 a2)
  have ap': "appends G [Request t1, Request t2] = [t1, t2]" by (simp add: b1 b2)
  have d2: "delimiter env0 r2 = '',''"
    by (simp add: delimiter_def env0_def r2_def post_def plain_query_def HasPrefix_def
        HasSuffix_def)
  have e2: "delimiter env0 t2 = []"
    by (simp add: delimiter_def env0_def t2_def post_def plain_query_def HasPrefix_def
        HasSuffix_def)
  have j: "joined env0 [r1, r2] = ''1,2''"
    by (simp add: d2) (simp add: body_of_def r1_def r2_def post_def)
  have j': "joined env0 [t1, t2] = ''12''"
    by (simp add: e2) (simp add: body_of_def t1_def t2_def post_def)
  from concatenation_fidelity [of "start NoDir" F evs env0] n nf
  have "Req (run env0 evs (start NoDir)) F
          = (case appends F evs of [] \<Rightarrow> None | r # rs \<Rightarrow> Some (joined env0 (r # rs)))"
    by blast
  then have A: "Req (run env0 evs (start NoDir)) F = Some ''1,2''"
    by (simp only: ap list.case j)
  from concatenation_fidelity [of "start NoDir" G "[Request t1, Request t2]" env0] n' nf'
  have "Req (run env0 [Request t1, Request t2] (start NoDir)) G
          = (case appends G [Request t1, Request t2] of
               [] \<Rightarrow> None | r # rs \<Rightarrow> Some (joined env0 (r # rs)))"
    by blast
  then have B: "Req (run env0 [Request t1, Request t2] (start NoDir)) G = Some ''12''"
    by (simp only: ap' list.case j')
  from concatenation_fidelity [of "run env0 evs (start NoDir)" F _ env0 r3] a3
  have "Req (snd (dorequest env0 r3 (flush_key env0 F (run env0 evs (start NoDir))))) F
          = Some (body_of r3)" by blast
  then have C: "Req (snd (dorequest env0 r3 (flush_key env0 F (run env0 evs (start NoDir))))) F
          = Some ''3''" by (simp add: body_of_def r3_def post_def)
  from n nf A B a3 C show ?thesis
    unfolding F_def G_def r1_def r2_def r3_def t1_def t2_def evs_def by blast
qed

section \<open>Claims about the forwarder\<close>

lemma send_success_iff:
  "fst (send env key val silent st) = None \<longleftrightarrow>
     NewRequest env (target env key) = None \<and> Do env (length (sent st)) = Inr 200"
  by (auto simp: send_def Let_def split: option.splits sum.splits)

lemma send_success_status:
  "fst (send env key val silent st) = None \<Longrightarrow>
     status (snd (send env key val silent st)) = ''OK'' @ CRLF
     \<and> errors (snd (send env key val silent st)) = errors st"
  by (auto simp: send_def Let_def split: option.splits sum.splits if_splits)

lemma send_failure_spills:
  "fst (send env key val silent st) = Some e \<Longrightarrow>
     errors (snd (send env key val silent st))
       = (if silent \<and> val \<noteq> []
          then pudge_Set (decimal (UnixNano env (length (sent st)))) key val (errors st)
          else errors st)"
  by (auto simp: send_def Let_def split: option.splits sum.splits if_splits)

lemma send_request_failure_status:
  "NewRequest env (target env key) = None \<Longrightarrow> fst (send env key val silent st) = Some e \<Longrightarrow>
     status (snd (send env key val silent st)) = e @ CRLF"
  by (auto simp: send_def Let_def split: option.splits sum.splits if_splits)

lemma send_build_failure:
  "NewRequest env (target env key) = Some e \<Longrightarrow>
     fst (send env key val silent st) = Some e
     \<and> status (snd (send env key val silent st)) = status st"
  by (simp add: send_def Let_def)

lemma flush_key_continues:
  "Req (flush_key env key st) = (Req st)(key := None)
   \<and> out_requests (flush_key env key st) = out_requests st + 1"
proof -
  obtain e st' where s: "send env key (lookup (Req st) key) True st = (e, st')"
    by (cases "send env key (lookup (Req st) key) True st")
  have "out_requests (snd (send env key (lookup (Req st) key) True st)) = out_requests st"
    by (simp add: send_def Let_def split: option.splits sum.splits)
  with s have "out_requests st' = out_requests st" by simp
  with s show ?thesis by (simp add: flush_key_Req) (simp add: flush_key_def Let_def)
qed

lemma pudge_Set_new:
  "d = NoDir \<or> (\<exists>fs. d = Dir fs \<and> map_of fs name = None) \<Longrightarrow>
     \<exists>fs'. pudge_Set name key val d = Dir fs' \<and> map_of fs' name = Some (Inr [(key, Inr val)])"
  by (auto simp: pudge_Set_def map_add_def)

text \<open>
  C4. When \<^verbatim>\<open>http.NewRequest\<close> fails, \<^verbatim>\<open>send\<close> with \<^verbatim>\<open>silent = true\<close> and a non-empty batch
  writes the spill file and returns the error, but leaves \<^verbatim>\<open>status\<close> as it was
  (\<^verbatim>\<open>"OK\r\n"\<close> here); the branch for a failed request, a few lines below, does set it.
\<close>

theorem send_build_failure_keeps_status:
  "fst (send env_bad ''?query=INSERT+INTO+t'' ''1'' True (start NoDir))
     = Some ''invalid character in host name''
   \<and> status (snd (send env_bad ''?query=INSERT+INTO+t'' ''1'' True (start NoDir))) = ''OK'' @ CRLF
   \<and> errors (snd (send env_bad ''?query=INSERT+INTO+t'' ''1'' True (start NoDir)))
       = Dir [(''1700000000000000000'', Inr [(''?query=INSERT+INTO+t'', Inr ''1'')])]"
proof -
  have t: "target env_bad ''?query=INSERT+INTO+t'' = ''http://local host:8123?query=INSERT+INTO+t''"
    by (simp add: target_def env_bad_def env0_def HasPrefix_def Replace1_def)
  have n: "NewRequest env_bad ''http://local host:8123?query=INSERT+INTO+t''
             = Some ''invalid character in host name''"
    by (simp add: env_bad_def env0_def)
  have d: "decimal (UnixNano env_bad (length (sent (start NoDir)))) = ''1700000000000000000''"
    by (simp add: env_bad_def env0_def start_def decimal.simps)
  show ?thesis
    unfolding send_def Let_def t n d
    by (simp add: start_def pudge_Set_def)
qed

section \<open>Claims about the recovery sweeper\<close>


lemma send_nonsilent:
  "errors (snd (send env key val False st)) = errors st
   \<and> sent (snd (send env key val False st))
       = sent st @ [(key, val, False, fst (send env key val False st))]"
  by (simp add: send_def Let_def split: option.splits sum.splits)

lemma forwarded_Nil: "forwarded [] = []"
  by (simp add: forwarded_def)

lemma forwarded_Cons: "forwarded ((key, Inr val) # keys) = (key, val, False, None) # forwarded keys"
  by (simp add: forwarded_def)

lemma readable_Nil: "readable []"
  by (simp add: readable_def)

lemma readable_Cons: "readable ((key, Inr val) # keys) = readable keys"
  by (simp add: readable_def)

lemma send_keys_errors: "errors (snd (send_keys env keys st)) = errors st"
proof (induction keys arbitrary: st)
  case Nil
  show ?case by simp
next
  case (Cons k keys)
  obtain key got where k: "k = (key, got)" by (cases k)
  show ?case
  proof (cases got)
    case (Inl e)
    then show ?thesis by (simp add: k)
  next
    case (Inr val)
    obtain e st' where s: "send env key val False st = (e, st')"
      by (cases "send env key val False st")
    with send_nonsilent [of env key val st] have r: "errors st' = errors st" by simp
    show ?thesis
    proof (cases e)
      case None
      with Cons.IH [of st'] r s Inr k show ?thesis by simp
    next
      case (Some a)
      with r s Inr k show ?thesis by simp
    qed
  qed
qed

lemma keys_outcome_Nil: "keys_outcome [] None 0 []"
  by (simp add: keys_outcome_def readable_Nil)

lemma keys_outcome_read: "keys_outcome ((key, Inl err) # keys) (Some err) 0 []"
  by (simp add: keys_outcome_def readable_Nil)

lemma keys_outcome_fail:
  "keys_outcome ((key, Inr val) # keys) (Some err) 0 [(key, val, False, Some err)]"
  by (simp add: keys_outcome_def readable_Nil)

lemma keys_outcome_Suc:
  "keys_outcome keys res j partial \<Longrightarrow> keys_outcome ((key, Inr val) # keys) res (Suc j) partial"
  by (auto simp: keys_outcome_def readable_Cons split: sum.splits)

lemma send_keys_sent:
  "\<exists>j partial. keys_outcome keys (fst (send_keys env keys st)) j partial
     \<and> sent (snd (send_keys env keys st)) = sent st @ forwarded (take j keys) @ partial"
proof (induction keys arbitrary: st)
  case Nil
  have "keys_outcome [] (fst (send_keys env [] st)) 0 []
      \<and> sent (snd (send_keys env [] st)) = sent st @ forwarded (take 0 []) @ []"
    by (simp add: keys_outcome_Nil forwarded_Nil)
  then show ?case by blast
next
  case (Cons k keys)
  obtain key got where k: "k = (key, got)" by (cases k)
  show ?case
  proof (cases got)
    case (Inl err)
    have "keys_outcome (k # keys) (fst (send_keys env (k # keys) st)) 0 []
      \<and> sent (snd (send_keys env (k # keys) st)) = sent st @ forwarded (take 0 (k # keys)) @ []"
      unfolding k Inl by (simp add: keys_outcome_read forwarded_Nil)
    then show ?thesis by blast
  next
    case (Inr val)
    obtain e st' where s: "send env key val False st = (e, st')"
      by (cases "send env key val False st")
    with send_nonsilent [of env key val st]
    have se: "sent st' = sent st @ [(key, val, False, e)]" by simp
    show ?thesis
    proof (cases e)
      case (Some err)
      have "keys_outcome (k # keys) (fst (send_keys env (k # keys) st)) 0 [(key, val, False, Some err)]
        \<and> sent (snd (send_keys env (k # keys) st))
            = sent st @ forwarded (take 0 (k # keys)) @ [(key, val, False, Some err)]"
        unfolding k Inr using s se Some by (simp add: keys_outcome_fail forwarded_Nil)
      then show ?thesis by blast
    next
      case None
      with s have r: "send_keys env (k # keys) st = send_keys env keys st'"
        by (simp add: k Inr)
      from Cons.IH [of st'] obtain j partial where
        o: "keys_outcome keys (fst (send_keys env keys st')) j partial"
        and sn: "sent (snd (send_keys env keys st')) = sent st' @ forwarded (take j keys) @ partial"
        by blast
      from o have o': "keys_outcome (k # keys) (fst (send_keys env keys st')) (Suc j) partial"
        unfolding k Inr by (rule keys_outcome_Suc)
      have "sent (snd (send_keys env keys st'))
          = sent st @ forwarded (take (Suc j) (k # keys)) @ partial"
        unfolding k Inr by (simp add: sn se None forwarded_Cons)
      with o' show ?thesis unfolding r by blast
    qed
  qed
qed

lemma pudge_Open_Dir: "errors st = Dir fs \<Longrightarrow> pudge_Open f st = opened fs f"
  by (simp add: pudge_Open_def opened_def)

lemma delete_filter:
  "AList.delete (f @ ''.idx'') (AList.delete f fs)
     = filter (\<lambda>(n, c). n \<noteq> f \<and> n \<noteq> f @ ''.idx'') fs"
  by (induction fs) auto

lemma DeleteFile_Dir:
  "errors st = Dir fs \<Longrightarrow>
     errors (DeleteFile f st) = Dir (filter (\<lambda>(n, c). n \<noteq> f \<and> n \<noteq> f @ ''.idx'') fs)"
  by (simp add: DeleteFile_def delete_filter)

lemma HasSuffix_append: "HasSuffix (a @ x) x"
  by (simp add: HasSuffix_def)

lemma not_index_name: "\<not> HasSuffix g ''.idx'' \<Longrightarrow> g \<noteq> f @ ''.idx''"
  using HasSuffix_append [of f "''.idx''"] by auto

lemma gone_Cons: "set (gone (f # ds)) = insert f (insert (f @ ''.idx'') (set (gone ds)))"
  by (simp add: gone_def)

lemma gone_iff: "g \<in> set (gone ds) \<longleftrightarrow> g \<in> set ds \<or> (\<exists>f\<in>set ds. g = f @ ''.idx'')"
  by (induction ds) (auto simp: gone_def)

lemma not_gone:
  "\<not> HasSuffix g ''.idx'' \<Longrightarrow> g \<notin> set ds \<Longrightarrow> g \<notin> set (gone ds)"
  by (auto simp: gone_iff dest: not_index_name)

lemma index_not_gone:
  "\<forall>f\<in>set ds. \<not> HasSuffix f ''.idx'' \<Longrightarrow> g \<notin> set ds \<Longrightarrow> g @ ''.idx'' \<notin> set (gone ds)"
  using HasSuffix_append [of g "''.idx''"] by (auto simp: gone_iff)

lemma DeleteFile_sent: "sent (DeleteFile f st) = sent st"
  by (simp add: DeleteFile_def)

lemma map_of_filter_other:
  "g \<noteq> f \<Longrightarrow> g \<noteq> f @ ''.idx'' \<Longrightarrow>
     map_of (filter (\<lambda>(n, c). n \<noteq> f \<and> n \<noteq> f @ ''.idx'') fs) g = map_of fs g"
  by (induction fs) auto

lemma opened_filter_other:
  "g \<noteq> f \<Longrightarrow> g \<noteq> f @ ''.idx'' \<Longrightarrow>
     opened (filter (\<lambda>(n, c). n \<noteq> f \<and> n \<noteq> f @ ''.idx'') fs) g = opened fs g"
  by (simp add: opened_def map_of_filter_other)

lemma records_filter_other:
  "g \<noteq> f \<Longrightarrow> g \<noteq> f @ ''.idx'' \<Longrightarrow>
     records (filter (\<lambda>(n, c). n \<noteq> f \<and> n \<noteq> f @ ''.idx'') fs) g = records fs g"
  by (simp add: records_def map_of_filter_other)

lemma opened_records: "opened fs f = Inr keys \<Longrightarrow> records fs f = keys"
  by (auto simp: opened_def records_def split: option.splits)

lemma filter_filter_done:
  "filter (\<lambda>(n, c). n \<notin> set (gone ds)) (filter (\<lambda>(n, c). n \<noteq> f \<and> n \<noteq> f @ ''.idx'') fs)
     = filter (\<lambda>(n, c). n \<notin> set (gone (f # ds))) fs"
  by (induction fs) (auto simp: gone_Cons)

lemma checkErr_files_spec:
  assumes "errors st = Dir fs" and "distinct list"
    and "\<forall>g\<in>set list. \<not> HasSuffix g ''.idx''"
  shows "\<exists>ds rest j partial. list = ds @ rest
     \<and> errors (snd (checkErr_files env list st)) = Dir (filter (\<lambda>(n, c). n \<notin> set (gone ds)) fs)
     \<and> (\<forall>f\<in>set ds. opened fs f = Inr (records fs f) \<and> readable (records fs f))
     \<and> sent (snd (checkErr_files env list st))
         = sent st @ concat (map (\<lambda>f. forwarded (records fs f)) ds)
             @ (case rest of [] \<Rightarrow> [] | f # fs' \<Rightarrow> forwarded (take j (records fs f)) @ partial)
     \<and> (fst (checkErr_files env list st) = None \<longleftrightarrow> rest = [])
     \<and> (\<forall>f fs'. rest = f # fs' \<longrightarrow> file_outcome (opened fs f) (fst (checkErr_files env list st)) j partial)"
  using assms
proof (induction list arbitrary: st fs)
  case Nil
  show ?case
    apply (rule exI [of _ "[]"])
    apply (rule exI [of _ "[]"])
    apply (simp add: Nil.prems gone_def)
    done
next
  case (Cons f list)
  have op: "pudge_Open f st = opened fs f" using Cons.prems(1) by (rule pudge_Open_Dir)
  show ?case
  proof (cases "opened fs f")
    case (Inl err)
    then have r: "checkErr_files env (f # list) st = (Some err, st)" by (simp add: op)
    show ?thesis
      unfolding r
      apply (rule exI [of _ "[]"])
      apply (rule exI [of _ "f # list"])
      apply (rule exI [of _ 0])
      apply (rule exI [of _ "[]"])
      apply (simp add: Cons.prems(1) Inl file_outcome_def forwarded_Nil gone_def)
      done
  next
    case (Inr keys)
    then have rk: "records fs f = keys" by (rule opened_records)
    obtain e st1 where s: "send_keys env keys st = (e, st1)"
      by (cases "send_keys env keys st")
    from send_keys_errors [of env keys st] s Cons.prems(1)
    have e1: "errors st1 = Dir fs" by simp
    from send_keys_sent [of keys env st] s obtain j partial where
      o: "keys_outcome keys e j partial"
      and sn: "sent st1 = sent st @ forwarded (take j keys) @ partial"
      by auto
    show ?thesis
    proof (cases e)
      case (Some err)
      with s have r: "checkErr_files env (f # list) st = (Some err, st1)"
        by (simp add: op Inr)
      from o Some have fo: "file_outcome (opened fs f) (Some err) j partial"
        by (simp add: file_outcome_def Inr)
      show ?thesis
        unfolding r
        apply (rule exI [of _ "[]"])
        apply (rule exI [of _ "f # list"])
        apply (rule exI [of _ j])
        apply (rule exI [of _ partial])
        apply (simp add: e1 sn rk fo gone_def)
        done
    next
      case None
      with s have r: "checkErr_files env (f # list) st = checkErr_files env list (DeleteFile f st1)"
        by (simp add: op Inr)
      from o None have jl: "take j keys = keys" and pe: "partial = []" and rd: "readable keys"
        by (auto simp: keys_outcome_def)
      define fs2 where "fs2 = filter (\<lambda>(n, c). n \<noteq> f \<and> n \<noteq> f @ ''.idx'') fs"
      have e2: "errors (DeleteFile f st1) = Dir fs2"
        unfolding fs2_def using e1 by (rule DeleteFile_Dir)
      have s2: "sent (DeleteFile f st1) = sent st @ forwarded keys"
        by (simp add: DeleteFile_sent sn jl pe)
      from Cons.prems(2) have dl: "distinct list" and fl: "f \<notin> set list" by simp_all
      from Cons.prems(3) have il: "\<forall>g\<in>set list. \<not> HasSuffix g ''.idx''" by simp
      from Cons.IH [OF e2 dl il] obtain ds rest j' partial' where
        l: "list = ds @ rest"
        and er: "errors (snd (checkErr_files env list (DeleteFile f st1)))
                   = Dir (filter (\<lambda>(n, c). n \<notin> set (gone ds)) fs2)"
        and dn: "\<forall>g\<in>set ds. opened fs2 g = Inr (records fs2 g) \<and> readable (records fs2 g)"
        and sn2: "sent (snd (checkErr_files env list (DeleteFile f st1)))
           = sent (DeleteFile f st1) @ concat (map (\<lambda>g. forwarded (records fs2 g)) ds)
               @ (case rest of [] \<Rightarrow> [] | g # fs' \<Rightarrow> forwarded (take j' (records fs2 g)) @ partial')"
        and rs: "fst (checkErr_files env list (DeleteFile f st1)) = None \<longleftrightarrow> rest = []"
        and fo: "\<forall>g fs'. rest = g # fs' \<longrightarrow>
                   file_outcome (opened fs2 g) (fst (checkErr_files env list (DeleteFile f st1))) j' partial'"
        by (elim exE conjE) (rule that, assumption+)
      from l fl have nds: "\<forall>g\<in>set ds. g \<noteq> f" and nrs: "\<forall>g\<in>set rest. g \<noteq> f" by auto
      from l il have ids: "\<forall>g\<in>set ds. g \<noteq> f @ ''.idx''"
        and irs: "\<forall>g\<in>set rest. g \<noteq> f @ ''.idx''"
        by (auto dest: not_index_name)
      have c1: "f # list = (f # ds) @ rest" by (simp add: l)
      have c2: "errors (snd (checkErr_files env list (DeleteFile f st1)))
                   = Dir (filter (\<lambda>(n, c). n \<notin> set (gone (f # ds))) fs)"
        unfolding er fs2_def by (simp only: filter_filter_done)
      have c3: "\<forall>g\<in>set (f # ds). opened fs g = Inr (records fs g) \<and> readable (records fs g)"
      proof
        fix g assume g: "g \<in> set (f # ds)"
        show "opened fs g = Inr (records fs g) \<and> readable (records fs g)"
        proof (cases "g = f")
          case True
          then show ?thesis by (simp add: Inr rk rd)
        next
          case False
          with g have gd: "g \<in> set ds" by simp
          with ids have gi: "g \<noteq> f @ ''.idx''" by blast
          from gd dn have "opened fs2 g = Inr (records fs2 g) \<and> readable (records fs2 g)" by blast
          then show ?thesis
            unfolding fs2_def
            by (simp only: opened_filter_other [OF False gi] records_filter_other [OF False gi])
        qed
      qed
      have m: "map (\<lambda>g. forwarded (records fs2 g)) ds = map (\<lambda>g. forwarded (records fs g)) ds"
        using nds ids unfolding fs2_def by (simp add: records_filter_other)
      have t: "(case rest of [] \<Rightarrow> [] | g # fs' \<Rightarrow> forwarded (take j' (records fs2 g)) @ partial')
             = (case rest of [] \<Rightarrow> [] | g # fs' \<Rightarrow> forwarded (take j' (records fs g)) @ partial')"
        using nrs irs unfolding fs2_def by (cases rest) (simp_all add: records_filter_other)
      have c4: "sent (snd (checkErr_files env list (DeleteFile f st1)))
           = sent st @ concat (map (\<lambda>g. forwarded (records fs g)) (f # ds))
               @ (case rest of [] \<Rightarrow> [] | g # fs' \<Rightarrow> forwarded (take j' (records fs g)) @ partial')"
        unfolding sn2 s2 m t by (simp add: rk)
      have c6: "\<forall>g fs'. rest = g # fs' \<longrightarrow>
                   file_outcome (opened fs g) (fst (checkErr_files env list (DeleteFile f st1))) j' partial'"
      proof (intro allI impI)
        fix g fs' assume g: "rest = g # fs'"
        with nrs irs have "g \<noteq> f" and gi: "g \<noteq> f @ ''.idx''" by simp_all
        from g fo have "file_outcome (opened fs2 g)
            (fst (checkErr_files env list (DeleteFile f st1))) j' partial'" by blast
        then show "file_outcome (opened fs g)
            (fst (checkErr_files env list (DeleteFile f st1))) j' partial'"
          unfolding fs2_def by (simp only: opened_filter_other [OF \<open>g \<noteq> f\<close> gi])
      qed
      have c5: "fst (checkErr_files env list (DeleteFile f st1)) = None \<longleftrightarrow> rest = []"
        by (rule rs)
      show ?thesis
        unfolding r
        apply (rule exI [of _ "f # ds"])
        apply (rule exI [of _ rest])
        apply (rule exI [of _ j'])
        apply (rule exI [of _ partial'])
        apply (intro conjI)
             apply (rule c1)
            apply (rule c2)
           apply (rule c3)
          apply (rule c4)
         apply (rule c5)
        apply (rule c6)
        done
    qed
  qed
qed

lemma map_of_filter_notin:
  "f \<notin> set ds \<Longrightarrow> map_of (filter (\<lambda>(n, c). n \<notin> set ds) fs) f = map_of fs f"
  by (induction fs) auto

lemma names_not_index:
  "\<forall>g\<in>set (sort (filter (\<lambda>p. \<not> HasSuffix p ''.idx'') ns)). \<not> HasSuffix g ''.idx''"
  by simp

lemma checkErr_Dir:
  "errors st = Dir fs \<Longrightarrow>
     checkErr env st
       = checkErr_files env (sort (filter (\<lambda>p. \<not> HasSuffix p ''.idx'') (map fst fs))) st"
  by (simp add: checkErr_def filePathWalkDir_def)

lemma checkErr_no_directory: "errors st = NoDir \<Longrightarrow> checkErr env st = (None, st)"
  by (simp add: checkErr_def filePathWalkDir_def)

text \<open>
  C3. With the spill directory readable and its file names distinct, a sweep goes
  through the names that do not end in \<^verbatim>\<open>.idx\<close> in ascending byte order and splits them
  into those done and the rest. Every record of every file done was read and sent
  with \<^verbatim>\<open>silent = false\<close> and accepted, in order, and exactly the files done and their
  index files are gone from the directory. The sweep returns no error exactly when
  no file is left; otherwise it stopped in the first file of the rest, at a record
  that could not be read or whose send failed (the error returned), after sending the
  records before it, and nothing of a later file was sent. Every file of the rest is
  still on disk with its content, and so is its index file.
\<close>

theorem sweep_fail_stop:
  "errors st = Dir fs \<and> distinct (map fst fs) \<longrightarrow>
     sorted (sort (filter (\<lambda>p. \<not> HasSuffix p ''.idx'') (map fst fs)))
     \<and> (\<exists>ds rest j partial.
          sort (filter (\<lambda>p. \<not> HasSuffix p ''.idx'') (map fst fs)) = ds @ rest
          \<and> errors (snd (checkErr env st)) = Dir (filter (\<lambda>(n, c). n \<notin> set (gone ds)) fs)
          \<and> (\<forall>f\<in>set ds. \<exists>keys. map_of fs f = Some (Inr keys) \<and> readable keys)
          \<and> sent (snd (checkErr env st))
              = sent st @ concat (map (\<lambda>f. forwarded (records fs f)) ds)
                  @ (case rest of [] \<Rightarrow> []
                     | f # fs' \<Rightarrow> forwarded (take j (records fs f)) @ partial)
          \<and> (fst (checkErr env st) = None \<longleftrightarrow> rest = [])
          \<and> (\<forall>f fs'. rest = f # fs' \<longrightarrow>
                (\<exists>c. map_of fs f = Some c \<and> file_outcome c (fst (checkErr env st)) j partial))
          \<and> (\<forall>f\<in>set rest. \<exists>fs'. errors (snd (checkErr env st)) = Dir fs'
                \<and> map_of fs' f = map_of fs f \<and> map_of fs f \<noteq> None
                \<and> map_of fs' (f @ ''.idx'') = map_of fs (f @ ''.idx'')))"
proof (intro impI conjI)
  show "sorted (sort (filter (\<lambda>p. \<not> HasSuffix p ''.idx'') (map fst fs)))"
    by (rule sorted_sort)
next
  assume a: "errors st = Dir fs \<and> distinct (map fst fs)"
  define names where "names = sort (filter (\<lambda>p. \<not> HasSuffix p ''.idx'') (map fst fs))"
  from a have e: "errors st = Dir fs" and d0: "distinct (map fst fs)" by blast+
  from d0 have d: "distinct names" by (simp add: names_def)
  have sub: "set names \<subseteq> fst ` set fs" by (auto simp: names_def)
  have c: "checkErr env st = checkErr_files env names st"
    unfolding names_def using e by (rule checkErr_Dir)
  have ni: "\<forall>g\<in>set names. \<not> HasSuffix g ''.idx''"
    unfolding names_def by (rule names_not_index)
  from checkErr_files_spec [OF e d ni, of env] obtain ds rest j partial where
    l: "names = ds @ rest"
    and er: "errors (snd (checkErr_files env names st))
               = Dir (filter (\<lambda>(n, c). n \<notin> set (gone ds)) fs)"
    and dn: "\<forall>f\<in>set ds. opened fs f = Inr (records fs f) \<and> readable (records fs f)"
    and sn: "sent (snd (checkErr_files env names st))
         = sent st @ concat (map (\<lambda>f. forwarded (records fs f)) ds)
             @ (case rest of [] \<Rightarrow> [] | f # fs' \<Rightarrow> forwarded (take j (records fs f)) @ partial)"
    and rs: "fst (checkErr_files env names st) = None \<longleftrightarrow> rest = []"
    and fo: "\<forall>f fs'. rest = f # fs' \<longrightarrow>
               file_outcome (opened fs f) (fst (checkErr_files env names st)) j partial"
    by (elim exE conjE) (rule that, assumption+)
  have present: "\<exists>c. map_of fs f = Some c \<and> opened fs f = c" if "f \<in> set names" for f
  proof -
    from that sub have "f \<in> fst ` set fs" by blast
    then have "map_of fs f \<noteq> None" by (simp add: map_of_eq_None_iff)
    then show ?thesis by (auto simp: opened_def)
  qed
  have c3: "\<forall>f\<in>set ds. \<exists>keys. map_of fs f = Some (Inr keys) \<and> readable keys"
  proof
    fix f assume f: "f \<in> set ds"
    with l have "f \<in> set names" by simp
    from present [OF this] obtain c where "map_of fs f = Some c" and "opened fs f = c" by blast
    with dn f show "\<exists>keys. map_of fs f = Some (Inr keys) \<and> readable keys" by auto
  qed
  have c6: "\<forall>f fs'. rest = f # fs' \<longrightarrow>
              (\<exists>c. map_of fs f = Some c \<and> file_outcome c (fst (checkErr env st)) j partial)"
  proof (intro allI impI)
    fix f fs' assume r: "rest = f # fs'"
    with l have "f \<in> set names" by simp
    from present [OF this] obtain c where m: "map_of fs f = Some c" and o: "opened fs f = c"
      by blast
    from fo r have "file_outcome (opened fs f) (fst (checkErr_files env names st)) j partial"
      by blast
    with m o show "\<exists>c. map_of fs f = Some c \<and> file_outcome c (fst (checkErr env st)) j partial"
      by (simp add: c)
  qed
  have c7: "\<forall>f\<in>set rest. \<exists>fs'. errors (snd (checkErr env st)) = Dir fs'
              \<and> map_of fs' f = map_of fs f \<and> map_of fs f \<noteq> None
              \<and> map_of fs' (f @ ''.idx'') = map_of fs (f @ ''.idx'')"
  proof
    fix f assume f: "f \<in> set rest"
    with l d have nd: "f \<notin> set ds" by auto
    from f l have fn: "f \<in> set names" by simp
    with ni have "\<not> HasSuffix f ''.idx''" by blast
    then have "f \<notin> set (gone ds)" using nd by (rule not_gone)
    then have m1: "map_of (filter (\<lambda>(n, c). n \<notin> set (gone ds)) fs) f = map_of fs f"
      by (rule map_of_filter_notin)
    from ni l have "\<forall>g\<in>set ds. \<not> HasSuffix g ''.idx''" by simp
    then have "f @ ''.idx'' \<notin> set (gone ds)" using nd by (rule index_not_gone)
    then have m2: "map_of (filter (\<lambda>(n, c). n \<notin> set (gone ds)) fs) (f @ ''.idx'')
                     = map_of fs (f @ ''.idx'')"
      by (rule map_of_filter_notin)
    from present [OF fn] have "map_of fs f \<noteq> None" by auto
    with m1 m2 show "\<exists>fs'. errors (snd (checkErr env st)) = Dir fs'
              \<and> map_of fs' f = map_of fs f \<and> map_of fs f \<noteq> None
              \<and> map_of fs' (f @ ''.idx'') = map_of fs (f @ ''.idx'')"
      using er by (simp add: c)
  qed
  show "\<exists>ds rest j partial.
          sort (filter (\<lambda>p. \<not> HasSuffix p ''.idx'') (map fst fs)) = ds @ rest
          \<and> errors (snd (checkErr env st)) = Dir (filter (\<lambda>(n, c). n \<notin> set (gone ds)) fs)
          \<and> (\<forall>f\<in>set ds. \<exists>keys. map_of fs f = Some (Inr keys) \<and> readable keys)
          \<and> sent (snd (checkErr env st))
              = sent st @ concat (map (\<lambda>f. forwarded (records fs f)) ds)
                  @ (case rest of [] \<Rightarrow> []
                     | f # fs' \<Rightarrow> forwarded (take j (records fs f)) @ partial)
          \<and> (fst (checkErr env st) = None \<longleftrightarrow> rest = [])
          \<and> (\<forall>f fs'. rest = f # fs' \<longrightarrow>
                (\<exists>c. map_of fs f = Some c \<and> file_outcome c (fst (checkErr env st)) j partial))
          \<and> (\<forall>f\<in>set rest. \<exists>fs'. errors (snd (checkErr env st)) = Dir fs'
                \<and> map_of fs' f = map_of fs f \<and> map_of fs f \<noteq> None
                \<and> map_of fs' (f @ ''.idx'') = map_of fs (f @ ''.idx''))"
    unfolding names_def [symmetric]
    apply (rule exI [of _ ds])
    apply (rule exI [of _ rest])
    apply (rule exI [of _ j])
    apply (rule exI [of _ partial])
    apply (intro conjI)
          apply (rule l)
         apply (simp only: c er)
        apply (rule c3)
       apply (simp only: c sn)
      apply (simp only: c rs)
     apply (rule c6)
    apply (rule c7)
    done
qed

lemma spilled_names:
  "sort (filter (\<lambda>p. \<not> HasSuffix p ''.idx'') (map fst spill_dir))
   = [''1700000000000000001'', ''1700000000000000002'', ''1700000000000000003'']"
  by (simp add: spill_dir_def HasSuffix_def less_eq_char_def less_char_def)

lemma spilled_eval:
  "fst (checkErr env_down spilled) = Some ''Error: response code not 200''
   \<and> errors (snd (checkErr env_down spilled))
       = Dir [(''1700000000000000002'', Inr [(''?query=INSERT+INTO+t'', Inr ''3'')]),
              (''1700000000000000002.idx'', Inr []),
              (''1700000000000000003'', Inr [(''?query=INSERT+INTO+u'', Inr ''4'')])]
   \<and> sent (snd (checkErr env_down spilled))
       = [(''?query=INSERT+INTO+t'', ''1,2'', False, None),
          (''?query=INSERT+INTO+t'', ''3'', False, Some ''Error: response code not 200'')]"
proof -
  have e: "errors spilled = Dir spill_dir"
    by (simp add: spilled_def start_def)
  have n: "NewRequest env_down u = None" for u by (simp add: env_down_def env0_def)
  have d0: "Do env_down 0 = Inr 200" and d1: "Do env_down (Suc 0) = Inr 500"
    by (simp_all add: env_down_def)
  have s0: "sent spilled = []" by (simp add: spilled_def start_def)
  show ?thesis
    unfolding checkErr_Dir [OF e] spilled_names
    by (simp add: pudge_Open_def e send_def Let_def n d0 d1 s0 DeleteFile_def spill_dir_def)
qed

theorem sweep_fail_stop_witness:
  "(errors spilled = Dir spill_dir \<and> distinct (map fst spill_dir))
   \<and> sorted (sort (filter (\<lambda>p. \<not> HasSuffix p ''.idx'') (map fst spill_dir)))
   \<and> (\<exists>ds rest j partial.
          sort (filter (\<lambda>p. \<not> HasSuffix p ''.idx'') (map fst spill_dir)) = ds @ rest
          \<and> errors (snd (checkErr env_down spilled))
              = Dir (filter (\<lambda>(n, c). n \<notin> set (gone ds)) spill_dir)
          \<and> (\<forall>f\<in>set ds. \<exists>keys. map_of spill_dir f = Some (Inr keys) \<and> readable keys)
          \<and> sent (snd (checkErr env_down spilled))
              = sent spilled @ concat (map (\<lambda>f. forwarded (records spill_dir f)) ds)
                  @ (case rest of [] \<Rightarrow> []
                     | f # fs' \<Rightarrow> forwarded (take j (records spill_dir f)) @ partial)
          \<and> (fst (checkErr env_down spilled) = None \<longleftrightarrow> rest = [])
          \<and> (\<forall>f fs'. rest = f # fs' \<longrightarrow>
                (\<exists>c. map_of spill_dir f = Some c
                   \<and> file_outcome c (fst (checkErr env_down spilled)) j partial))
          \<and> (\<forall>f\<in>set rest. \<exists>fs'. errors (snd (checkErr env_down spilled)) = Dir fs'
                \<and> map_of fs' f = map_of spill_dir f \<and> map_of spill_dir f \<noteq> None
                \<and> map_of fs' (f @ ''.idx'') = map_of spill_dir (f @ ''.idx'')))
   \<and> fst (checkErr env_down spilled) = Some ''Error: response code not 200''
   \<and> errors (snd (checkErr env_down spilled))
       = Dir [(''1700000000000000002'', Inr [(''?query=INSERT+INTO+t'', Inr ''3'')]),
              (''1700000000000000002.idx'', Inr []),
              (''1700000000000000003'', Inr [(''?query=INSERT+INTO+u'', Inr ''4'')])]"
proof -
  have h: "errors spilled = Dir spill_dir \<and> distinct (map fst spill_dir)"
    by (simp add: spilled_def start_def spill_dir_def)
  note c = sweep_fail_stop [of spilled spill_dir env_down, THEN mp, OF h]
  from spilled_eval have e: "fst (checkErr env_down spilled) = Some ''Error: response code not 200''"
    by (rule conjunct1)
  note d = spilled_eval [THEN conjunct2, THEN conjunct1]
  show ?thesis
    apply (rule conjI)
     apply (rule h)
    apply (rule conjI)
     apply (rule c [THEN conjunct1])
    apply (rule conjI)
     apply (rule c [THEN conjunct2])
    apply (rule conjI)
     apply (rule e)
    apply (rule d)
    done
qed

end
